theory Spec2Isabelle
  imports Main "HOL-Library.Word"
begin

section \<open>String insertion into a window line (pdc\_insstr.c)\<close>

text \<open>
  The file \<^verbatim>\<open>graphics/pdcurs34/pdcurses/pdc_insstr.c\<close> inserts a string at the cursor of a
  curses window by calling \<^verbatim>\<open>winsch\<close> once per character, last character first. It is
  compiled in one of two ways: without \<^verbatim>\<open>CONFIG_PDCURSES_WIDE\<close> only the narrow
  \<^verbatim>\<open>winsnstr\<close> family exists; with it, \<^verbatim>\<open>winsnstr\<close> decodes its multibyte argument into
  a local buffer of 513 wide characters first, and the \<^verbatim>\<open>wins_nwstr\<close> family is added.

  Functions the file calls and does not define (\<^verbatim>\<open>winsch\<close>, \<^verbatim>\<open>PDC_mbtowc\<close>, \<^verbatim>\<open>move\<close>,
  \<^verbatim>\<open>wmove\<close>) are parameters of the model, named as in the source. A pointer that may be
  null is an \<open>option\<close>; the object a window pointer refers to is passed in and returned.
  A C string argument is the array object it points into, given as the list of its
  elements: the terminator is an element of the list, and whatever the array holds after
  the terminator follows it.
\<close>

subsection \<open>Values of C\<close>

type_synonym byte = "8 word"

text \<open>
  What the C standard leaves undefined is a fault of the model: a read outside the array a
  pointer refers to, a read of a local that was never written, a write outside the local
  buffer, and an overflowing signed addition.
\<close>

datatype fault = OutOfBounds | Uninitialised | BufferOverflow | SignedOverflow

text \<open>
  Modelled from the spec: the two status codes \<^verbatim>\<open>OK\<close> and \<^verbatim>\<open>ERR\<close> come from
  \<^verbatim>\<open>curses.h\<close>, which is not among the sources; the spec speaks of the conventional
  OK/ERROR status codes of the library, which are 0 and -1.
\<close>

definition OK :: int where
  "OK = 0"

definition ERR :: int where
  "ERR = - 1"

text \<open>An \<^verbatim>\<open>int\<close> has 32 bits.\<close>

definition INT_MAX :: int where
  "INT_MAX = 2147483647"

text \<open>
  The assignment \<^verbatim>\<open>len = strlen(str)\<close> converts a \<^verbatim>\<open>size_t\<close> to an \<^verbatim>\<open>int\<close>: the value is
  kept when it fits and wraps in two's complement otherwise.
\<close>

definition int_of_size :: "nat \<Rightarrow> int" where
  "int_of_size k = signed_take_bit 31 (int k)"

text \<open>\<^verbatim>\<open>a[i]\<close> for an array given by its elements.\<close>

definition index :: "'a list \<Rightarrow> int \<Rightarrow> fault + 'a" where
  "index a i = (if 0 \<le> i \<and> i < int (length a) then Inr (a ! nat i) else Inl OutOfBounds)"

text \<open>\<^verbatim>\<open>strlen\<close> of the C library: the number of bytes before the first zero byte.\<close>

fun strlen :: "byte list \<Rightarrow> fault + nat" where
  "strlen [] = Inl OutOfBounds"
| "strlen (c # s) =
     (if c = 0 then Inr 0
      else (case strlen s of Inl e \<Rightarrow> Inl e | Inr k \<Rightarrow> Inr (Suc k)))"

subsection \<open>The narrow build: \<^verbatim>\<open>winsnstr\<close> without \<^verbatim>\<open>CONFIG_PDCURSES_WIDE\<close>\<close>

text \<open>
  Lines 147 to 153, with the \<^verbatim>\<open>return OK\<close> of line 156 as the exit of the loop:
  \<^verbatim>\<open>while (n) { if (winsch(win, (unsigned char)(str[--n])) == ERR) return ERR; }\<close>.
  The cast to \<^verbatim>\<open>unsigned char\<close> followed by the conversion to \<^verbatim>\<open>chtype\<close>, an unsigned type
  of some width, is a zero extension.
\<close>

function winsnstr_loop ::
  "('w \<Rightarrow> 'c::len word \<Rightarrow> int \<times> 'w) \<Rightarrow> 'w \<Rightarrow> byte list \<Rightarrow> int \<Rightarrow> fault + (int \<times> 'w)" where
  "winsnstr_loop winsch win str n =
     (if n \<noteq> 0 then
        (case index str (n - 1) of
           Inl e \<Rightarrow> Inl e
         | Inr c \<Rightarrow>
             (case winsch win (ucast c) of
                (rc, win') \<Rightarrow>
                  if rc = ERR then Inr (ERR, win')
                  else winsnstr_loop winsch win' str (n - 1)))
      else Inr (OK, win))"
  by pat_completeness auto
termination
  by (relation "measure (\<lambda>(winsch, win, str, n). nat n)")
     (auto simp: index_def split: if_splits)

declare winsnstr_loop.simps [simp del]

definition winsnstr ::
  "('w \<Rightarrow> 'c::len word \<Rightarrow> int \<times> 'w) \<Rightarrow> 'w option \<Rightarrow> byte list option \<Rightarrow> int
     \<Rightarrow> fault + (int \<times> 'w option)" where
  "winsnstr winsch win str n =
     (case (win, str) of
        (Some w, Some s) \<Rightarrow>
          (case strlen s of
             Inl e \<Rightarrow> Inl e
           | Inr l \<Rightarrow>
               let len = int_of_size l;
                   n = (if n < 0 \<or> n < len then len else n)
               in (case winsnstr_loop winsch w s n of
                     Inl e \<Rightarrow> Inl e
                   | Inr (rc, w') \<Rightarrow> Inr (rc, Some w')))
      | _ \<Rightarrow> Inr (ERR, win))"

subsection \<open>The wide build: \<^verbatim>\<open>winsnstr\<close> with \<^verbatim>\<open>CONFIG_PDCURSES_WIDE\<close>\<close>

text \<open>
  Lines 126 to 137. \<^verbatim>\<open>PDC_mbtowc(p, str + i, n - i)\<close> is given the array from position
  \<open>i\<close> on and the byte budget, and answers with its return value and the wide character
  it stored through \<open>p\<close>. The buffer \<open>wstr\<close> is a list of cells, \<open>None\<close> for a cell never
  written, and \<open>p\<close> is the offset of the pointer from its start. The condition of the
  loop reads \<^verbatim>\<open>str[i]\<close> before it compares \<open>i\<close> with \<open>n\<close>.
\<close>

function winsnstr_decode ::
  "(byte list \<Rightarrow> int \<Rightarrow> int \<times> 'u) \<Rightarrow> byte list \<Rightarrow> int \<Rightarrow> 'u option list \<Rightarrow> nat \<Rightarrow> int
     \<Rightarrow> fault + ('u option list \<times> nat)" where
  "winsnstr_decode PDC_mbtowc str n wstr p i =
     (case index str i of
        Inl e \<Rightarrow> Inl e
      | Inr c \<Rightarrow>
          if c \<noteq> 0 \<and> i < n then
            (if p < length wstr then
               (case PDC_mbtowc (drop (nat i) str) (n - i) of
                  (retval, wc) \<Rightarrow>
                    if retval \<le> 0 then Inr (wstr, p)
                    else if INT_MAX < i + retval then Inl SignedOverflow
                    else winsnstr_decode PDC_mbtowc str n (wstr[p := Some wc]) (p + 1)
                           (i + retval))
             else Inl BufferOverflow)
          else Inr (wstr, p))"
  by pat_completeness auto
termination
  by (relation "measure (\<lambda>(PDC_mbtowc, str, n, wstr, p, i). nat (n - i))") auto

declare winsnstr_decode.simps [simp del]

text \<open>
  Lines 139 to 145, with the \<^verbatim>\<open>return OK\<close> of line 156:
  \<^verbatim>\<open>while (p > wstr) { if (winsch(win, *--p) == ERR) return ERR; }\<close>.
  In this build every argument \<^verbatim>\<open>winsch\<close> receives from this file is a \<^verbatim>\<open>wchar_t\<close>, so
  the parameter takes the wide character; its conversion to \<^verbatim>\<open>chtype\<close> is part of the call.
\<close>

fun winsnstr_insert ::
  "('w \<Rightarrow> 'u \<Rightarrow> int \<times> 'w) \<Rightarrow> 'w \<Rightarrow> 'u option list \<Rightarrow> nat \<Rightarrow> fault + (int \<times> 'w)" where
  "winsnstr_insert winsch win wstr 0 = Inr (OK, win)"
| "winsnstr_insert winsch win wstr (Suc p) =
     (case index wstr (int p) of
        Inl e \<Rightarrow> Inl e
      | Inr None \<Rightarrow> Inl Uninitialised
      | Inr (Some wc) \<Rightarrow>
          (case winsch win wc of
             (rc, win') \<Rightarrow>
               if rc = ERR then Inr (ERR, win')
               else winsnstr_insert winsch win' wstr p))"

definition winsnstr_wide ::
  "(byte list \<Rightarrow> int \<Rightarrow> int \<times> 'u) \<Rightarrow> ('w \<Rightarrow> 'u \<Rightarrow> int \<times> 'w) \<Rightarrow> 'w option \<Rightarrow> byte list option
     \<Rightarrow> int \<Rightarrow> fault + (int \<times> 'w option)" where
  "winsnstr_wide PDC_mbtowc winsch win str n =
     (case (win, str) of
        (Some w, Some s) \<Rightarrow>
          (case strlen s of
             Inl e \<Rightarrow> Inl e
           | Inr l \<Rightarrow>
               let len = int_of_size l;
                   n = (if n < 0 \<or> n < len then len else n);
                   n = (if 512 < n then 512 else n)
               in (case winsnstr_decode PDC_mbtowc s n (replicate 513 None) 0 0 of
                     Inl e \<Rightarrow> Inl e
                   | Inr (wstr, p) \<Rightarrow>
                       (case winsnstr_insert winsch w wstr p of
                          Inl e \<Rightarrow> Inl e
                        | Inr (rc, w') \<Rightarrow> Inr (rc, Some w'))))
      | _ \<Rightarrow> Inr (ERR, win))"

subsection \<open>The wide build: \<^verbatim>\<open>wins_nwstr\<close>\<close>

text \<open>
  Line 255, \<^verbatim>\<open>for (len = 0, p = wstr; *p; p++) len++;\<close>: the pointer \<open>p\<close> is the rest
  of the array from its position on.
\<close>

fun wins_nwstr_len :: "'u::zero list \<Rightarrow> int \<Rightarrow> fault + int" where
  "wins_nwstr_len [] len = Inl OutOfBounds"
| "wins_nwstr_len (c # p) len =
     (if c \<noteq> 0 then
        (if INT_MAX < len + 1 then Inl SignedOverflow else wins_nwstr_len p (len + 1))
      else Inr len)"

text \<open>Lines 265 to 271, with the \<^verbatim>\<open>return OK\<close> of line 273.\<close>

function wins_nwstr_loop ::
  "('w \<Rightarrow> 'u \<Rightarrow> int \<times> 'w) \<Rightarrow> 'w \<Rightarrow> 'u list \<Rightarrow> int \<Rightarrow> fault + (int \<times> 'w)" where
  "wins_nwstr_loop winsch win wstr n =
     (if n \<noteq> 0 then
        (case index wstr (n - 1) of
           Inl e \<Rightarrow> Inl e
         | Inr c \<Rightarrow>
             (case winsch win c of
                (rc, win') \<Rightarrow>
                  if rc = ERR then Inr (ERR, win')
                  else wins_nwstr_loop winsch win' wstr (n - 1)))
      else Inr (OK, win))"
  by pat_completeness auto
termination
  by (relation "measure (\<lambda>(winsch, win, wstr, n). nat n)")
     (auto simp: index_def split: if_splits)

declare wins_nwstr_loop.simps [simp del]

definition wins_nwstr ::
  "('w \<Rightarrow> 'u::zero \<Rightarrow> int \<times> 'w) \<Rightarrow> 'w option \<Rightarrow> 'u list option \<Rightarrow> int
     \<Rightarrow> fault + (int \<times> 'w option)" where
  "wins_nwstr winsch win wstr n =
     (case (win, wstr) of
        (Some w, Some s) \<Rightarrow>
          (case wins_nwstr_len s 0 of
             Inl e \<Rightarrow> Inl e
           | Inr len \<Rightarrow>
               let n = (if n < 0 \<or> n < len then len else n)
               in (case wins_nwstr_loop winsch w s n of
                     Inl e \<Rightarrow> Inl e
                   | Inr (rc, w') \<Rightarrow> Inr (rc, Some w')))
      | _ \<Rightarrow> Inr (ERR, win))"

subsection \<open>The forwarding entry points\<close>

text \<open>
  The eight narrow entry points call the \<^verbatim>\<open>winsnstr\<close> of the build they are compiled in,
  which is their first argument here. \<^verbatim>\<open>stdscr\<close> is the global window pointer, read by
  the entry points that name no window; \<^verbatim>\<open>move\<close> acts on it.
\<close>

definition insstr ::
  "('w option \<Rightarrow> byte list option \<Rightarrow> int \<Rightarrow> fault + (int \<times> 'w option)) \<Rightarrow> 'w option
     \<Rightarrow> byte list option \<Rightarrow> fault + (int \<times> 'w option)" where
  "insstr ins stdscr str = ins stdscr str (- 1)"

definition winsstr ::
  "('w option \<Rightarrow> byte list option \<Rightarrow> int \<Rightarrow> fault + (int \<times> 'w option)) \<Rightarrow> 'w option
     \<Rightarrow> byte list option \<Rightarrow> fault + (int \<times> 'w option)" where
  "winsstr ins win str = ins win str (- 1)"

definition mvinsstr ::
  "('w option \<Rightarrow> int \<Rightarrow> int \<Rightarrow> int \<times> 'w option)
     \<Rightarrow> ('w option \<Rightarrow> byte list option \<Rightarrow> int \<Rightarrow> fault + (int \<times> 'w option)) \<Rightarrow> 'w option
     \<Rightarrow> int \<Rightarrow> int \<Rightarrow> byte list option \<Rightarrow> fault + (int \<times> 'w option)" where
  "mvinsstr move ins stdscr y x str =
     (case move stdscr y x of
        (rc, stdscr') \<Rightarrow> if rc = ERR then Inr (ERR, stdscr') else ins stdscr' str (- 1))"

definition mvwinsstr ::
  "('w option \<Rightarrow> int \<Rightarrow> int \<Rightarrow> int \<times> 'w option)
     \<Rightarrow> ('w option \<Rightarrow> byte list option \<Rightarrow> int \<Rightarrow> fault + (int \<times> 'w option)) \<Rightarrow> 'w option
     \<Rightarrow> int \<Rightarrow> int \<Rightarrow> byte list option \<Rightarrow> fault + (int \<times> 'w option)" where
  "mvwinsstr wmove ins win y x str =
     (case wmove win y x of
        (rc, win') \<Rightarrow> if rc = ERR then Inr (ERR, win') else ins win' str (- 1))"

definition insnstr ::
  "('w option \<Rightarrow> byte list option \<Rightarrow> int \<Rightarrow> fault + (int \<times> 'w option)) \<Rightarrow> 'w option
     \<Rightarrow> byte list option \<Rightarrow> int \<Rightarrow> fault + (int \<times> 'w option)" where
  "insnstr ins stdscr str n = ins stdscr str n"

definition mvinsnstr ::
  "('w option \<Rightarrow> int \<Rightarrow> int \<Rightarrow> int \<times> 'w option)
     \<Rightarrow> ('w option \<Rightarrow> byte list option \<Rightarrow> int \<Rightarrow> fault + (int \<times> 'w option)) \<Rightarrow> 'w option
     \<Rightarrow> int \<Rightarrow> int \<Rightarrow> byte list option \<Rightarrow> int \<Rightarrow> fault + (int \<times> 'w option)" where
  "mvinsnstr move ins stdscr y x str n =
     (case move stdscr y x of
        (rc, stdscr') \<Rightarrow> if rc = ERR then Inr (ERR, stdscr') else ins stdscr' str n)"

definition mvwinsnstr ::
  "('w option \<Rightarrow> int \<Rightarrow> int \<Rightarrow> int \<times> 'w option)
     \<Rightarrow> ('w option \<Rightarrow> byte list option \<Rightarrow> int \<Rightarrow> fault + (int \<times> 'w option)) \<Rightarrow> 'w option
     \<Rightarrow> int \<Rightarrow> int \<Rightarrow> byte list option \<Rightarrow> int \<Rightarrow> fault + (int \<times> 'w option)" where
  "mvwinsnstr wmove ins win y x str n =
     (case wmove win y x of
        (rc, win') \<Rightarrow> if rc = ERR then Inr (ERR, win') else ins win' str n)"

text \<open>The eight wide entry points exist in the wide build only and call \<^verbatim>\<open>wins_nwstr\<close>.\<close>

definition ins_wstr ::
  "('w \<Rightarrow> 'u::zero \<Rightarrow> int \<times> 'w) \<Rightarrow> 'w option \<Rightarrow> 'u list option \<Rightarrow> fault + (int \<times> 'w option)" where
  "ins_wstr winsch stdscr wstr = wins_nwstr winsch stdscr wstr (- 1)"

definition wins_wstr ::
  "('w \<Rightarrow> 'u::zero \<Rightarrow> int \<times> 'w) \<Rightarrow> 'w option \<Rightarrow> 'u list option \<Rightarrow> fault + (int \<times> 'w option)" where
  "wins_wstr winsch win wstr = wins_nwstr winsch win wstr (- 1)"

definition mvins_wstr ::
  "('w option \<Rightarrow> int \<Rightarrow> int \<Rightarrow> int \<times> 'w option) \<Rightarrow> ('w \<Rightarrow> 'u::zero \<Rightarrow> int \<times> 'w) \<Rightarrow> 'w option
     \<Rightarrow> int \<Rightarrow> int \<Rightarrow> 'u list option \<Rightarrow> fault + (int \<times> 'w option)" where
  "mvins_wstr move winsch stdscr y x wstr =
     (case move stdscr y x of
        (rc, stdscr') \<Rightarrow>
          if rc = ERR then Inr (ERR, stdscr') else wins_nwstr winsch stdscr' wstr (- 1))"

definition mvwins_wstr ::
  "('w option \<Rightarrow> int \<Rightarrow> int \<Rightarrow> int \<times> 'w option) \<Rightarrow> ('w \<Rightarrow> 'u::zero \<Rightarrow> int \<times> 'w) \<Rightarrow> 'w option
     \<Rightarrow> int \<Rightarrow> int \<Rightarrow> 'u list option \<Rightarrow> fault + (int \<times> 'w option)" where
  "mvwins_wstr wmove winsch win y x wstr =
     (case wmove win y x of
        (rc, win') \<Rightarrow> if rc = ERR then Inr (ERR, win') else wins_nwstr winsch win' wstr (- 1))"

definition ins_nwstr ::
  "('w \<Rightarrow> 'u::zero \<Rightarrow> int \<times> 'w) \<Rightarrow> 'w option \<Rightarrow> 'u list option \<Rightarrow> int
     \<Rightarrow> fault + (int \<times> 'w option)" where
  "ins_nwstr winsch stdscr wstr n = wins_nwstr winsch stdscr wstr n"

definition mvins_nwstr ::
  "('w option \<Rightarrow> int \<Rightarrow> int \<Rightarrow> int \<times> 'w option) \<Rightarrow> ('w \<Rightarrow> 'u::zero \<Rightarrow> int \<times> 'w) \<Rightarrow> 'w option
     \<Rightarrow> int \<Rightarrow> int \<Rightarrow> 'u list option \<Rightarrow> int \<Rightarrow> fault + (int \<times> 'w option)" where
  "mvins_nwstr move winsch stdscr y x wstr n =
     (case move stdscr y x of
        (rc, stdscr') \<Rightarrow>
          if rc = ERR then Inr (ERR, stdscr') else wins_nwstr winsch stdscr' wstr n)"

definition mvwins_nwstr ::
  "('w option \<Rightarrow> int \<Rightarrow> int \<Rightarrow> int \<times> 'w option) \<Rightarrow> ('w \<Rightarrow> 'u::zero \<Rightarrow> int \<times> 'w) \<Rightarrow> 'w option
     \<Rightarrow> int \<Rightarrow> int \<Rightarrow> 'u list option \<Rightarrow> int \<Rightarrow> fault + (int \<times> 'w option)" where
  "mvwins_nwstr wmove winsch win y x wstr n =
     (case wmove win y x of
        (rc, win') \<Rightarrow> if rc = ERR then Inr (ERR, win') else wins_nwstr winsch win' wstr n)"

subsection \<open>The collaborators as the specification describes them\<close>

text \<open>
  Modelled from the spec: the \<^verbatim>\<open>WINDOW\<close> structure is declared in \<^verbatim>\<open>curses.h\<close>, which is
  not among the sources. The spec speaks of a rectangular grid of character units with a
  cursor row and a cursor column; the other fields of the structure are the extension of
  the record.
\<close>

record 'c window =
  cury :: nat
  curx :: nat
  rows :: "'c list list"

text \<open>
  Modelled from the spec: \<^verbatim>\<open>winsch\<close> is defined in another file, which is not among the
  sources. The spec's \<open>insert_cell(window, unit)\<close> inserts one character unit at the
  window's current cursor column on the current line, shifting existing cells on that line
  rightward by one, dropping the rightmost cell if it overflows the line width; the cursor
  position is unchanged; it fails if the cursor position is invalid.
\<close>

definition insert_cell :: "('c, 'x) window_scheme \<Rightarrow> 'c \<Rightarrow> int \<times> ('c, 'x) window_scheme" where
  "insert_cell w u =
     (if cury w < length (rows w) \<and> curx w < length (rows w ! cury w) then
        (OK, w\<lparr>rows := (rows w)[cury w :=
                 take (curx w) (rows w ! cury w) @ u # butlast (drop (curx w) (rows w ! cury w))]\<rparr>)
      else (ERR, w))"

text \<open>
  Modelled from the spec: \<^verbatim>\<open>PDC_mbtowc\<close> is defined in another file, which is not among
  the sources. The spec's \<open>decode_one(buffer, max_bytes)\<close> attempts to decode one character
  unit from the start of the buffer, consuming at most \<open>max_bytes\<close>; the outcome is a unit
  with a positive count of bytes consumed, or a non-positive signal. This instance knows
  one-byte units below 128 and two-byte units whose first byte is from 192 to 223; it
  serves as the decoder of the examples.
\<close>

definition decode_one :: "byte list \<Rightarrow> int \<Rightarrow> int \<times> 32 word" where
  "decode_one s k =
     (case s of
        [] \<Rightarrow> (- 1, 0)
      | b # s' \<Rightarrow>
          if k < 1 then (- 1, 0)
          else if b = 0 then (0, 0)
          else if b < 128 then (1, ucast b)
          else if 192 \<le> b \<and> b < 224 then
            (case s' of
               [] \<Rightarrow> (- 1, 0)
             | b' # _ \<Rightarrow>
                 if k < 2 then (- 1, 0)
                 else (2, push_bit 6 (ucast (and b 31)) + ucast (and b' 63)))
          else (- 1, 0))"

text \<open>
  Modelled from the spec: \<^verbatim>\<open>move\<close> and \<^verbatim>\<open>wmove\<close> are defined in another file, which is
  not among the sources. The spec's \<open>move_cursor(window, row, col)\<close> repositions the
  cursor and can fail; this instance accepts the positions of the grid and refuses every
  other, and a null window.
\<close>

definition move_cursor ::
  "('c, 'x) window_scheme option \<Rightarrow> int \<Rightarrow> int \<Rightarrow> int \<times> ('c, 'x) window_scheme option" where
  "move_cursor win y x =
     (case win of
        None \<Rightarrow> (ERR, None)
      | Some w \<Rightarrow>
          if 0 \<le> y \<and> 0 \<le> x \<and> nat y < length (rows w) \<and> nat x < length (rows w ! nat y)
          then (OK, Some (w\<lparr>cury := nat y, curx := nat x\<rparr>))
          else (ERR, win))"

subsection \<open>Observing the calls of \<^verbatim>\<open>winsch\<close>\<close>

text \<open>
  \<open>logged winsch\<close> behaves as \<open>winsch\<close> on the window and appends every call, with its
  argument and its return value, to a list kept beside the window.
\<close>

definition logged ::
  "('w \<Rightarrow> 'c \<Rightarrow> int \<times> 'w) \<Rightarrow> 'w \<times> ('c \<times> int) list \<Rightarrow> 'c \<Rightarrow> int \<times> ('w \<times> ('c \<times> int) list)" where
  "logged winsch = (\<lambda>(w, calls) c.
     case winsch w c of (rc, w') \<Rightarrow> (rc, (w', calls @ [(c, rc)])))"

text \<open>The window after the calls \<open>winsch w c\<close> for the units \<open>c\<close> of a list, in order.\<close>

definition replay :: "('w \<Rightarrow> 'c \<Rightarrow> int \<times> 'w) \<Rightarrow> 'w \<Rightarrow> 'c list \<Rightarrow> 'w" where
  "replay winsch w cs = foldl (\<lambda>w c. snd (winsch w c)) w cs"

text \<open>
  The spec's insertion of a sequence of units: one call of the primitive per unit, in the
  order of the list, given up at the first call that fails.
\<close>

fun insert_all :: "('w \<Rightarrow> 'c \<Rightarrow> int \<times> 'w) \<Rightarrow> 'w \<Rightarrow> 'c list \<Rightarrow> int \<times> 'w" where
  "insert_all winsch w [] = (OK, w)"
| "insert_all winsch w (c # cs) =
     (case winsch w c of
        (rc, w') \<Rightarrow> if rc = ERR then (ERR, w') else insert_all winsch w' cs)"

text \<open>The calls that \<open>insert_all\<close> makes, each with its return value.\<close>

fun calls_of :: "('w \<Rightarrow> 'c \<Rightarrow> int \<times> 'w) \<Rightarrow> 'w \<Rightarrow> 'c list \<Rightarrow> ('c \<times> int) list" where
  "calls_of winsch w [] = []"
| "calls_of winsch w (c # cs) =
     (case winsch w c of
        (rc, w') \<Rightarrow> (c, rc) # (if rc = ERR then [] else calls_of winsch w' cs))"

subsection \<open>Notions of the statements\<close>

text \<open>
  The number of source bytes the wide \<^verbatim>\<open>winsnstr\<close> allows the decoder, from the length
  \<open>l\<close> that \<^verbatim>\<open>strlen\<close> found and the argument \<open>n\<close>: lines 110 to 121.
\<close>

definition byte_budget :: "nat \<Rightarrow> int \<Rightarrow> int" where
  "byte_budget l n =
     (let len = int_of_size l;
          n = (if n < 0 \<or> n < len then len else n)
      in if 512 < n then 512 else n)"

text \<open>
  The count the insertion loops start from, from the length found and the argument \<open>n\<close>:
  lines 112 to 115 and 260 to 263.
\<close>

definition effective_count :: "int \<Rightarrow> int \<Rightarrow> int" where
  "effective_count len n = (if n < 0 \<or> n < len then len else n)"

text \<open>
  The primitive, called on the units \<open>us\<close> one after the other from the window \<open>w\<close>,
  each call on the window the call before it left, returns \<^verbatim>\<open>ERR\<close> at call \<open>k\<close>, counted
  from 0, and not before. This speaks of the primitive alone, not of any engine.
\<close>

definition fails_at :: "('w \<Rightarrow> 'c \<Rightarrow> int \<times> 'w) \<Rightarrow> 'w \<Rightarrow> 'c list \<Rightarrow> nat \<Rightarrow> bool" where
  "fails_at winsch w us k \<longleftrightarrow>
     k < length us
     \<and> (\<forall>j<k. fst (winsch (replay winsch w (take j us)) (us ! j)) \<noteq> ERR)
     \<and> fst (winsch (replay winsch w (take k us)) (us ! k)) = ERR"

text \<open>The calls number 0 to \<open>k\<close> of that sequence, each with the value it returns.\<close>

definition calls_until ::
  "('w \<Rightarrow> 'c \<Rightarrow> int \<times> 'w) \<Rightarrow> 'w \<Rightarrow> 'c list \<Rightarrow> nat \<Rightarrow> ('c \<times> int) list" where
  "calls_until winsch w us k =
     map (\<lambda>j. (us ! j, fst (winsch (replay winsch w (take j us)) (us ! j)))) [0..<Suc k]"

text \<open>
  The spec's insertion in one step: the window \<open>w\<close> with the units \<open>us\<close> put into the row
  of the cursor at the cursor column in reading order, the old content from the cursor on
  moved right behind them, and the row cut at its width.
\<close>

definition inserted_at :: "('c, 'x) window_scheme \<Rightarrow> 'c list \<Rightarrow> ('c, 'x) window_scheme" where
  "inserted_at w us =
     w\<lparr>rows := (rows w)[cury w :=
        take (length (rows w ! cury w))
          (take (curx w) (rows w ! cury w) @ us @ drop (curx w) (rows w ! cury w))]\<rparr>"

text \<open>
  The spec's forward decoding: \<open>decodes mb str n i us j\<close> holds when, from byte \<open>i\<close> on,
  one decode step after the other is attempted under the condition of the loop and
  succeeds, the steps yield the units \<open>us\<close> in this order, and the byte cursor then stands
  at \<open>j\<close>.
\<close>

inductive decodes ::
  "(byte list \<Rightarrow> int \<Rightarrow> int \<times> 'u) \<Rightarrow> byte list \<Rightarrow> int \<Rightarrow> int \<Rightarrow> 'u list \<Rightarrow> int \<Rightarrow> bool"
  for mb :: "byte list \<Rightarrow> int \<Rightarrow> int \<times> 'u" and str :: "byte list" and n :: int where
  decodes_none: "decodes mb str n i [] i"
| decodes_unit:
    "index str i = Inr c \<Longrightarrow> c \<noteq> 0 \<Longrightarrow> i < n \<Longrightarrow>
     mb (drop (nat i) str) (n - i) = (retval, wc) \<Longrightarrow> 0 < retval \<Longrightarrow>
     decodes mb str n (i + retval) us j \<Longrightarrow>
     decodes mb str n i (wc # us) j"

text \<open>The decode loop is in a state from which it makes another full iteration.\<close>

definition decode_continues ::
  "(byte list \<Rightarrow> int \<Rightarrow> int \<times> 'u) \<Rightarrow> byte list \<Rightarrow> int \<Rightarrow> 'u option list \<Rightarrow> nat \<Rightarrow> int \<Rightarrow> bool" where
  "decode_continues mb str n wstr p i \<longleftrightarrow>
     (\<exists>c retval wc. index str i = Inr c \<and> c \<noteq> 0 \<and> i < n \<and> p < length wstr
        \<and> mb (drop (nat i) str) (n - i) = (retval, wc) \<and> 0 < retval \<and> i + retval \<le> INT_MAX)"

text \<open>
  The window \<open>w'\<close> differs from \<open>w\<close> in the content of the row of \<open>w\<close>'s cursor at
  most: cursor, every other row and every other field are those of \<open>w\<close>.
\<close>

definition only_cursor_row :: "('c, 'x) window_scheme \<Rightarrow> ('c, 'x) window_scheme \<Rightarrow> bool" where
  "only_cursor_row w w' \<longleftrightarrow> w' = w\<lparr>rows := (rows w)[cury w := rows w' ! cury w]\<rparr>"

text \<open>
  Inputs of the examples: a window of one row of five blanks with the cursor in column 1,
  and a primitive that refuses the letter A and inserts any other unit.
\<close>

definition blank_window :: "'c::len word window" where
  "blank_window = \<lparr>cury = 0, curx = 1, rows = [[32, 32, 32, 32, 32]]\<rparr>"

definition refuse_A :: "'c::len word window \<Rightarrow> 'c word \<Rightarrow> int \<times> 'c word window" where
  "refuse_A w c = (if c = 65 then (ERR, w) else insert_cell w c)"

section \<open>Properties of the loops\<close>

subsection \<open>The C library and the conversions\<close>

lemma int_of_size_small: "k < 2147483648 \<Longrightarrow> int_of_size k = int k"
  unfolding int_of_size_def
  by (simp add: signed_take_bit_int_eq_self)

lemma strlen_Inr: "strlen s = Inr l \<Longrightarrow> l < length s \<and> s ! l = 0 \<and> (\<forall>j<l. s ! j \<noteq> 0)"
proof (induction s arbitrary: l)
  case Nil
  then show ?case by simp
next
  case (Cons c s)
  show ?case
  proof (cases "c = 0")
    case True
    with Cons.prems show ?thesis by simp
  next
    case False
    with Cons.prems obtain k where k: "strlen s = Inr k" "l = Suc k"
      by (auto split: sum.splits)
    from Cons.IH [OF k(1)] False k(2) show ?thesis
      by (auto simp: nth_Cons split: nat.splits)
  qed
qed

lemma strlen_fault: "strlen s = Inl e \<Longrightarrow> e = OutOfBounds"
  by (induction s) (auto split: if_splits sum.splits)

lemma strlen_replicate: "c \<noteq> 0 \<Longrightarrow> strlen (replicate m c @ [0]) = Inr m"
  by (induction m) simp_all

lemma wins_nwstr_len_Inr:
  "wins_nwstr_len s a = Inr len \<Longrightarrow> a \<le> len \<and> len - a \<le> int (length s)"
proof (induction s arbitrary: a)
  case Nil
  then show ?case by simp
next
  case (Cons c s)
  show ?case
  proof (cases "c = 0")
    case True
    with Cons.prems show ?thesis by simp
  next
    case False
    with Cons.prems have "wins_nwstr_len s (a + 1) = Inr len"
      by (simp split: if_splits)
    from Cons.IH [OF this] show ?thesis by simp
  qed
qed

subsection \<open>A sequence of insertions and its calls\<close>

lemma insert_all_logged:
  "insert_all (logged winsch) (w, l0) us =
     (fst (insert_all winsch w us), (snd (insert_all winsch w us), l0 @ calls_of winsch w us))"
  by (induction us arbitrary: w l0) (auto simp: logged_def split: prod.splits)

lemma calls_of_prefix: "map fst (calls_of winsch w us) = take (length (calls_of winsch w us)) us"
  by (induction us arbitrary: w) (auto split: prod.splits)

lemma calls_of_length: "length (calls_of winsch w us) \<le> length us"
  by (induction us arbitrary: w) (auto split: prod.splits)

lemma calls_of_ERR_last:
  "k < length (calls_of winsch w us) \<Longrightarrow> snd (calls_of winsch w us ! k) = ERR \<Longrightarrow>
   length (calls_of winsch w us) = Suc k"
proof (induction us arbitrary: w k)
  case Nil
  then show ?case by simp
next
  case (Cons c us)
  obtain rc w' where f: "winsch w c = (rc, w')" by (cases "winsch w c")
  show ?case
  proof (cases "rc = ERR")
    case True
    with Cons.prems f show ?thesis by simp
  next
    case False
    show ?thesis
    proof (cases k)
      case 0
      with Cons.prems f False show ?thesis by simp
    next
      case (Suc k')
      with Cons.prems f False Cons.IH [of k' w'] show ?thesis by simp
    qed
  qed
qed

lemma insert_all_fst:
  "fst (insert_all winsch w us) = ERR \<or>
   fst (insert_all winsch w us) = OK \<and> length (calls_of winsch w us) = length us
     \<and> (\<forall>j<length us. snd (calls_of winsch w us ! j) \<noteq> ERR)"
proof (induction us arbitrary: w)
  case Nil
  show ?case by simp
next
  case (Cons c us)
  obtain rc w' where f: "winsch w c = (rc, w')" by (cases "winsch w c")
  show ?case
  proof (cases "rc = ERR")
    case True
    with f show ?thesis by simp
  next
    case False
    with f Cons.IH [of w'] show ?thesis
      by (auto simp: nth_Cons split: nat.splits)
  qed
qed

lemma insert_all_ERR_iff:
  "fst (insert_all winsch w us) = ERR \<longleftrightarrow>
     calls_of winsch w us \<noteq> [] \<and> snd (last (calls_of winsch w us)) = ERR"
  by (induction us arbitrary: w) (auto simp: OK_def ERR_def split: prod.splits)

lemma insert_all_replay:
  "snd (insert_all winsch w us) = replay winsch w (map fst (calls_of winsch w us))"
  by (induction us arbitrary: w) (auto simp: replay_def split: prod.splits)

lemma insert_all_no_failure:
  assumes "fst (insert_all winsch w us) \<noteq> ERR"
  shows "insert_all winsch w us = (OK, replay winsch w us)
       \<and> map fst (calls_of winsch w us) = us"
proof -
  from assms insert_all_fst [of winsch w us]
  have ok: "fst (insert_all winsch w us) = OK" and len: "length (calls_of winsch w us) = length us"
    by auto
  have c: "map fst (calls_of winsch w us) = us"
    using calls_of_prefix [of winsch w us] len by simp
  have "snd (insert_all winsch w us) = replay winsch w us"
    using insert_all_replay [of winsch w us] c by simp
  with ok c show ?thesis
    by (metis prod.collapse)
qed

lemma replay_Cons: "replay winsch w (c # cs) = replay winsch (snd (winsch w c)) cs"
  by (simp add: replay_def)

lemma replay_take_Suc:
  "k < length us \<Longrightarrow>
   replay winsch w (take (Suc k) us) = snd (winsch (replay winsch w (take k us)) (us ! k))"
  by (simp add: take_Suc_conv_app_nth replay_def)

lemma fails_at_Cons_0: "fails_at winsch w (c # cs) 0 \<longleftrightarrow> fst (winsch w c) = ERR"
  by (simp add: fails_at_def replay_def)

lemma fails_at_Cons_Suc:
  "fails_at winsch w (c # cs) (Suc k) \<longleftrightarrow>
     fst (winsch w c) \<noteq> ERR \<and> fails_at winsch (snd (winsch w c)) cs k"
proof
  assume a: "fails_at winsch w (c # cs) (Suc k)"
  then have k: "k < length cs" by (simp add: fails_at_def)
  from a have all: "\<forall>j<Suc k. fst (winsch (replay winsch w (take j (c # cs))) ((c # cs) ! j)) \<noteq> ERR"
    by (simp add: fails_at_def)
  from all have h0: "fst (winsch w c) \<noteq> ERR"
    by (auto simp: replay_def dest: spec [where x = 0])
  have hj: "\<forall>j<k. fst (winsch (replay winsch (snd (winsch w c)) (take j cs)) (cs ! j)) \<noteq> ERR"
  proof (intro allI impI)
    fix j assume "j < k"
    then have "Suc j < Suc k" by simp
    with all have "fst (winsch (replay winsch w (take (Suc j) (c # cs))) ((c # cs) ! Suc j)) \<noteq> ERR"
      by blast
    then show "fst (winsch (replay winsch (snd (winsch w c)) (take j cs)) (cs ! j)) \<noteq> ERR"
      by (simp add: replay_Cons)
  qed
  from a have "fst (winsch (replay winsch (snd (winsch w c)) (take k cs)) (cs ! k)) = ERR"
    by (simp add: fails_at_def replay_Cons)
  with h0 k hj show "fst (winsch w c) \<noteq> ERR \<and> fails_at winsch (snd (winsch w c)) cs k"
    by (simp add: fails_at_def)
next
  assume a: "fst (winsch w c) \<noteq> ERR \<and> fails_at winsch (snd (winsch w c)) cs k"
  then have k: "k < length cs"
    and hj: "\<forall>j<k. fst (winsch (replay winsch (snd (winsch w c)) (take j cs)) (cs ! j)) \<noteq> ERR"
    and hk: "fst (winsch (replay winsch (snd (winsch w c)) (take k cs)) (cs ! k)) = ERR"
    by (simp_all add: fails_at_def)
  have "\<forall>j<Suc k. fst (winsch (replay winsch w (take j (c # cs))) ((c # cs) ! j)) \<noteq> ERR"
  proof (intro allI impI)
    fix j assume j: "j < Suc k"
    show "fst (winsch (replay winsch w (take j (c # cs))) ((c # cs) ! j)) \<noteq> ERR"
    proof (cases j)
      case 0
      with a show ?thesis by (simp add: replay_def)
    next
      case (Suc j')
      with j hj show ?thesis by (simp add: replay_Cons)
    qed
  qed
  with k hk show "fails_at winsch w (c # cs) (Suc k)"
    by (simp add: fails_at_def replay_Cons)
qed

lemma calls_until_Cons_0: "calls_until winsch w (c # cs) 0 = [(c, fst (winsch w c))]"
  by (simp add: calls_until_def replay_def)

lemma calls_until_Cons_Suc:
  "calls_until winsch w (c # cs) (Suc k)
     = (c, fst (winsch w c)) # calls_until winsch (snd (winsch w c)) cs k"
proof -
  have "[0..<Suc (Suc k)] = 0 # map Suc [0..<Suc k]"
    by (simp only: map_Suc_upt upt_conv_Cons [of 0 "Suc (Suc k)"] zero_less_Suc)
  then show ?thesis
    by (simp add: calls_until_def comp_def replay_Cons replay_def del: upt_Suc)
qed

lemma insert_all_fails_at:
  "fails_at winsch w us k \<Longrightarrow>
   insert_all winsch w us = (ERR, replay winsch w (take (Suc k) us))
   \<and> calls_of winsch w us = calls_until winsch w us k"
proof (induction us arbitrary: w k)
  case Nil
  then show ?case by (simp add: fails_at_def)
next
  case (Cons c cs)
  obtain rc w' where f: "winsch w c = (rc, w')" by (cases "winsch w c")
  show ?case
  proof (cases k)
    case 0
    with Cons.prems f have "rc = ERR" by (simp add: fails_at_Cons_0)
    with f 0 show ?thesis
      by (simp add: calls_until_Cons_0 replay_def)
  next
    case (Suc k')
    with Cons.prems f have rc: "rc \<noteq> ERR" and r: "fails_at winsch w' cs k'"
      by (simp_all add: fails_at_Cons_Suc)
    from Cons.IH [OF r] rc f Suc show ?thesis
      by (simp add: calls_until_Cons_Suc replay_Cons)
  qed
qed

lemma insert_all_invariant:
  assumes step: "\<And>w c. R w (snd (winsch w c))" and refl: "\<And>w. R w w"
    and trans: "\<And>a b c. R a b \<Longrightarrow> R b c \<Longrightarrow> R a c"
  shows "R w (snd (insert_all winsch w us))"
proof (induction us arbitrary: w)
  case Nil
  show ?case by (simp add: refl)
next
  case (Cons c us)
  obtain rc w' where f: "winsch w c = (rc, w')" by (cases "winsch w c")
  have s: "R w w'" using step [of w c] f by simp
  show ?case
  proof (cases "rc = ERR")
    case True
    with f s show ?thesis by simp
  next
    case False
    with f trans [OF s Cons.IH [of w']] show ?thesis by simp
  qed
qed

subsection \<open>The insertion loops insert the selected units, last unit first\<close>

lemma winsnstr_loop_fault:
  "n < 0 \<or> int (length str) < n \<Longrightarrow> winsnstr_loop winsch w str n = Inl OutOfBounds"
  by (subst winsnstr_loop.simps) (auto simp: index_def)

lemma winsnstr_loop_insert_all:
  "k \<le> length str \<Longrightarrow>
   winsnstr_loop winsch w str (int k) = Inr (insert_all winsch w (rev (map ucast (take k str))))"
proof (induction k arbitrary: w)
  case 0
  show ?case by (subst winsnstr_loop.simps) simp
next
  case (Suc k)
  then have k: "k < length str" by simp
  have ix: "index str (int (Suc k) - 1) = Inr (str ! k)"
    using k by (simp add: index_def)
  have tk: "rev (map ucast (take (Suc k) str)) = (ucast (str ! k) :: 'b word) # rev (map ucast (take k str))"
    using k by (simp add: take_Suc_conv_app_nth)
  show ?case
    apply (subst winsnstr_loop.simps)
    apply (simp only: ix tk)
    using Suc.IH k
    apply (auto split: prod.splits)
    done
qed

lemma winsnstr_loop_Inr:
  assumes "winsnstr_loop winsch w str n = Inr r"
  shows "0 \<le> n \<and> n \<le> int (length str) \<and> r = insert_all winsch w (rev (map ucast (take (nat n) str)))"
proof -
  have b: "0 \<le> n \<and> n \<le> int (length str)"
  proof (rule ccontr)
    assume "\<not> (0 \<le> n \<and> n \<le> int (length str))"
    then have "n < 0 \<or> int (length str) < n" by linarith
    from winsnstr_loop_fault [OF this, of winsch w] assms show False by simp
  qed
  then have "nat n \<le> length str" by linarith
  from winsnstr_loop_insert_all [OF this, of winsch w] assms b show ?thesis by simp
qed

lemma wins_nwstr_loop_fault:
  "n < 0 \<or> int (length wstr) < n \<Longrightarrow> wins_nwstr_loop winsch w wstr n = Inl OutOfBounds"
  by (subst wins_nwstr_loop.simps) (auto simp: index_def)

lemma wins_nwstr_loop_insert_all:
  "k \<le> length wstr \<Longrightarrow>
   wins_nwstr_loop winsch w wstr (int k) = Inr (insert_all winsch w (rev (take k wstr)))"
proof (induction k arbitrary: w)
  case 0
  show ?case by (subst wins_nwstr_loop.simps) simp
next
  case (Suc k)
  then have k: "k < length wstr" by simp
  have ix: "index wstr (int (Suc k) - 1) = Inr (wstr ! k)"
    using k by (simp add: index_def)
  have tk: "rev (take (Suc k) wstr) = wstr ! k # rev (take k wstr)"
    using k by (simp add: take_Suc_conv_app_nth)
  show ?case
    apply (subst wins_nwstr_loop.simps)
    apply (simp only: ix tk)
    using Suc.IH k
    apply (auto split: prod.splits)
    done
qed

lemma wins_nwstr_loop_Inr:
  assumes "wins_nwstr_loop winsch w wstr n = Inr r"
  shows "0 \<le> n \<and> n \<le> int (length wstr) \<and> r = insert_all winsch w (rev (take (nat n) wstr))"
proof -
  have b: "0 \<le> n \<and> n \<le> int (length wstr)"
  proof (rule ccontr)
    assume "\<not> (0 \<le> n \<and> n \<le> int (length wstr))"
    then have "n < 0 \<or> int (length wstr) < n" by linarith
    from wins_nwstr_loop_fault [OF this, of winsch w] assms show False by simp
  qed
  then have "nat n \<le> length wstr" by linarith
  from wins_nwstr_loop_insert_all [OF this, of winsch w] assms b show ?thesis by simp
qed

lemma winsnstr_insert_insert_all:
  "p \<le> length wstr \<Longrightarrow> \<forall>j<p. wstr ! j = Some (us ! j) \<Longrightarrow> length us = p \<Longrightarrow>
   winsnstr_insert winsch w wstr p = Inr (insert_all winsch w (rev us))"
proof (induction p arbitrary: w us)
  case 0
  then show ?case by simp
next
  case (Suc p)
  then have p: "p < length wstr" by simp
  from Suc.prems obtain vs v where us: "us = vs @ [v]" "length vs = p"
    by (metis length_Suc_conv_rev)
  have ix: "index wstr (int p) = Inr (Some v)"
    using p Suc.prems(2) us by (simp add: index_def nth_append)
  have vs: "\<forall>j<p. wstr ! j = Some (vs ! j)"
    using Suc.prems(2) us by (simp add: nth_append)
  have ih: "\<And>w. winsnstr_insert winsch w wstr p = Inr (insert_all winsch w (rev vs))"
    using Suc.IH [OF _ vs us(2)] p by simp
  show ?case
    by (simp add: ix ih us(1) split: prod.splits)
qed

subsection \<open>The decode loop\<close>

lemma winsnstr_decode_step:
  "index str i = Inr c \<Longrightarrow> c \<noteq> 0 \<Longrightarrow> i < n \<Longrightarrow> p < length wstr \<Longrightarrow>
   mb (drop (nat i) str) (n - i) = (retval, wc) \<Longrightarrow> 0 < retval \<Longrightarrow> i + retval \<le> INT_MAX \<Longrightarrow>
   winsnstr_decode mb str n wstr p i
     = winsnstr_decode mb str n (wstr[p := Some wc]) (p + 1) (i + retval)"
  by (subst winsnstr_decode.simps) simp

lemma winsnstr_decode_stop:
  assumes "\<not> decode_continues mb str n wstr p i"
  shows "winsnstr_decode mb str n wstr p i =
     (case index str i of
        Inl e \<Rightarrow> Inl e
      | Inr c \<Rightarrow>
          if c \<noteq> 0 \<and> i < n then
            (if p < length wstr then
               (if fst (mb (drop (nat i) str) (n - i)) \<le> 0 then Inr (wstr, p)
                else Inl SignedOverflow)
             else Inl BufferOverflow)
          else Inr (wstr, p))"
proof (cases "mb (drop (nat i) str) (n - i)")
  case (Pair retval wc)
  show ?thesis
  proof (cases "index str i")
    case (Inl e)
    then show ?thesis by (subst winsnstr_decode.simps) simp
  next
    case (Inr c)
    with assms Pair have "c \<noteq> 0 \<Longrightarrow> i < n \<Longrightarrow> p < length wstr \<Longrightarrow> 0 < retval \<Longrightarrow> INT_MAX < i + retval"
      unfolding decode_continues_def by (meson not_le)
    with Inr Pair show ?thesis
      by (subst winsnstr_decode.simps) auto
  qed
qed

lemma winsnstr_decode_Inr:
  "winsnstr_decode mb str n wstr p i = Inr (wstr', p') \<Longrightarrow> p \<le> length wstr \<Longrightarrow>
   p \<le> p' \<and> p' \<le> length wstr \<and> length wstr' = length wstr
   \<and> int p' - int p \<le> max 0 (n - i)
   \<and> (\<forall>j<p. wstr' ! j = wstr ! j)
   \<and> (\<forall>j. p \<le> j \<and> j < p' \<longrightarrow> wstr' ! j \<noteq> None)"
proof (induction mb str n wstr p i arbitrary: wstr' p' rule: winsnstr_decode.induct)
  case (1 mb str n wstr p i)
  show ?case
  proof (cases "decode_continues mb str n wstr p i")
    case False
    from "1.prems"(1) [unfolded winsnstr_decode_stop [OF False]] "1.prems"(2) show ?thesis
      by (auto split: sum.splits if_splits)
  next
    case True
    then obtain c retval wc where s: "index str i = Inr c" "c \<noteq> 0" "i < n" "p < length wstr"
        "mb (drop (nat i) str) (n - i) = (retval, wc)" "0 < retval" "i + retval \<le> INT_MAX"
      unfolding decode_continues_def by blast
    from "1.prems"(1) have rec: "winsnstr_decode mb str n (wstr[p := Some wc]) (p + 1) (i + retval) = Inr (wstr', p')"
      by (simp add: winsnstr_decode_step [where mb = mb, OF s])
    have "p + 1 \<le> length (wstr[p := Some wc])" using s(4) by simp
    from "1.IH" [OF s(1) _ s(4) s(5) [symmetric] _ _ rec this] s
    have ih: "p + 1 \<le> p'" "p' \<le> length wstr" "length wstr' = length wstr"
       "int p' - int (p + 1) \<le> max 0 (n - (i + retval))"
       "\<forall>j<p + 1. wstr' ! j = wstr[p := Some wc] ! j"
       "\<forall>j. p + 1 \<le> j \<and> j < p' \<longrightarrow> wstr' ! j \<noteq> None"
      by simp_all
    have a: "\<forall>j<p. wstr' ! j = wstr ! j"
      using ih(5) by (auto simp: nth_list_update)
    have wp: "wstr' ! p = Some wc" using ih(5) s(4) by simp
    have b: "\<forall>j. p \<le> j \<and> j < p' \<longrightarrow> wstr' ! j \<noteq> None"
    proof (intro allI impI)
      fix j assume j: "p \<le> j \<and> j < p'"
      show "wstr' ! j \<noteq> None"
      proof (cases "j = p")
        case True
        with wp show ?thesis by simp
      next
        case False
        with j have "p + 1 \<le> j \<and> j < p'" by simp
        with ih(6) show ?thesis by blast
      qed
    qed
    from ih(1,2,3,4) s(3,6) a b show ?thesis by auto
  qed
qed

lemma winsnstr_decode_no_overflow:
  "int p + (n - i) \<le> int (length wstr) \<Longrightarrow>
   winsnstr_decode mb str n wstr p i \<noteq> Inl BufferOverflow"
proof (induction mb str n wstr p i rule: winsnstr_decode.induct)
  case (1 mb str n wstr p i)
  show ?case
  proof (cases "decode_continues mb str n wstr p i")
    case False
    have "i < n \<Longrightarrow> p < length wstr" using "1.prems" by linarith
    then show ?thesis
      unfolding winsnstr_decode_stop [OF False] by (auto simp: index_def split: sum.splits)
  next
    case True
    then obtain c retval wc where s: "index str i = Inr c" "c \<noteq> 0" "i < n" "p < length wstr"
        "mb (drop (nat i) str) (n - i) = (retval, wc)" "0 < retval" "i + retval \<le> INT_MAX"
      unfolding decode_continues_def by blast
    have "int (p + 1) + (n - (i + retval)) \<le> int (length (wstr[p := Some wc]))"
      using "1.prems" s(6) by simp
    from "1.IH" [OF s(1) _ s(4) s(5) [symmetric] _ _ this] s
    have "winsnstr_decode mb str n (wstr[p := Some wc]) (p + 1) (i + retval) \<noteq> Inl BufferOverflow"
      by simp
    then show ?thesis
      by (simp add: winsnstr_decode_step [where mb = mb, OF s])
  qed
qed

lemma winsnstr_decode_initialised:
  "winsnstr_decode mb str n wstr p i \<noteq> Inl Uninitialised"
proof (induction mb str n wstr p i rule: winsnstr_decode.induct)
  case (1 mb str n wstr p i)
  show ?case
  proof (cases "decode_continues mb str n wstr p i")
    case False
    show ?thesis
      unfolding winsnstr_decode_stop [OF False] by (auto simp: index_def split: sum.splits)
  next
    case True
    then obtain c retval wc where s: "index str i = Inr c" "c \<noteq> 0" "i < n" "p < length wstr"
        "mb (drop (nat i) str) (n - i) = (retval, wc)" "0 < retval" "i + retval \<le> INT_MAX"
      unfolding decode_continues_def by blast
    from "1.IH" [OF s(1) _ s(4) s(5) [symmetric]] s
    have "winsnstr_decode mb str n (wstr[p := Some wc]) (p + 1) (i + retval) \<noteq> Inl Uninitialised"
      by simp
    then show ?thesis
      by (simp add: winsnstr_decode_step [where mb = mb, OF s])
  qed
qed

lemma winsnstr_decode_cong:
  "(\<forall>j. i \<le> j \<and> j < n \<longrightarrow> mb (drop (nat j) str) (n - j) = mb' (drop (nat j) str) (n - j)) \<Longrightarrow>
   winsnstr_decode mb str n wstr p i = winsnstr_decode mb' str n wstr p i"
proof (induction mb str n wstr p i rule: winsnstr_decode.induct)
  case (1 mb str n wstr p i)
  show ?case
  proof (cases "decode_continues mb str n wstr p i")
    case False
    have e: "i < n \<Longrightarrow> mb' (drop (nat i) str) (n - i) = mb (drop (nat i) str) (n - i)"
      using "1.prems" by simp
    with False have False': "\<not> decode_continues mb' str n wstr p i"
      by (auto simp: decode_continues_def)
    show ?thesis
      unfolding winsnstr_decode_stop [OF False] winsnstr_decode_stop [OF False']
      using e by (auto split: sum.splits)
  next
    case True
    then obtain c retval wc where s: "index str i = Inr c" "c \<noteq> 0" "i < n" "p < length wstr"
        "mb (drop (nat i) str) (n - i) = (retval, wc)" "0 < retval" "i + retval \<le> INT_MAX"
      unfolding decode_continues_def by blast
    have m': "mb' (drop (nat i) str) (n - i) = (retval, wc)"
      using "1.prems" s(3,5) by simp
    have "\<forall>j. i + retval \<le> j \<and> j < n \<longrightarrow> mb (drop (nat j) str) (n - j) = mb' (drop (nat j) str) (n - j)"
      using "1.prems" s(6) by simp
    from "1.IH" [OF s(1) _ s(4) s(5) [symmetric] _ _ this] s
    have "winsnstr_decode mb str n (wstr[p := Some wc]) (p + 1) (i + retval)
        = winsnstr_decode mb' str n (wstr[p := Some wc]) (p + 1) (i + retval)"
      by simp
    then show ?thesis
      by (simp add: winsnstr_decode_step [where mb = mb, OF s] winsnstr_decode_step [where mb = mb', OF s(1-4) m' s(6,7)])
  qed
qed

lemma decodes_advance: "decodes mb str n i us j \<Longrightarrow> i + int (length us) \<le> j"
  by (induction rule: decodes.induct) auto

lemma decodes_length: "decodes mb str n i us j \<Longrightarrow> int (length us) \<le> max 0 (n - i)"
  by (induction rule: decodes.induct) auto

lemma decodes_run:
  "decodes mb str n i us j \<Longrightarrow> j \<le> INT_MAX \<Longrightarrow> p + length us \<le> length wstr \<Longrightarrow>
   winsnstr_decode mb str n wstr p i =
     winsnstr_decode mb str n (take p wstr @ map Some us @ drop (p + length us) wstr)
       (p + length us) j"
proof (induction arbitrary: wstr p rule: decodes.induct)
  case (decodes_none i)
  show ?case by simp
next
  case (decodes_unit i c retval wc us j)
  have p: "p < length wstr" using decodes_unit.prems by simp
  have "i + retval \<le> j" using decodes_advance [OF decodes_unit.hyps(6)] by simp
  then have ov: "i + retval \<le> INT_MAX" using decodes_unit.prems(1) by simp
  have "winsnstr_decode mb str n wstr p i
      = winsnstr_decode mb str n (wstr[p := Some wc]) (p + 1) (i + retval)"
    by (rule winsnstr_decode_step [where mb = mb, OF decodes_unit.hyps(1-3) p decodes_unit.hyps(4,5) ov])
  also have "\<dots> = winsnstr_decode mb str n
      (take (p + 1) (wstr[p := Some wc]) @ map Some us
         @ drop (p + 1 + length us) (wstr[p := Some wc])) (p + 1 + length us) j"
    using decodes_unit.prems by (intro decodes_unit.IH) simp_all
  also have "take (p + 1) (wstr[p := Some wc]) = take p wstr @ [Some wc]"
    using p by (simp add: take_Suc_conv_app_nth)
  also have "drop (p + 1 + length us) (wstr[p := Some wc]) = drop (p + 1 + length us) wstr"
    by simp
  finally show ?case by simp
qed

lemma winsnstr_decode_insert:
  assumes d: "winsnstr_decode mb s n wstr 0 0 = Inr (wstr', p)"
  shows "p \<le> length wstr \<and> int p \<le> max 0 n
    \<and> winsnstr_insert winsch w wstr' p = Inr (insert_all winsch w (rev (map the (take p wstr'))))"
proof -
  from winsnstr_decode_Inr [OF d] have
    b: "p \<le> length wstr" "length wstr' = length wstr" "int p \<le> max 0 n"
    and c: "\<forall>j<p. wstr' ! j \<noteq> None"
    by auto
  have "\<forall>j<p. wstr' ! j = Some (map the (take p wstr') ! j)"
    using b c by auto
  moreover have "length (map the (take p wstr')) = p" using b by simp
  moreover have "p \<le> length wstr'" using b by simp
  ultimately show ?thesis
    using winsnstr_insert_insert_all [of p wstr' "map the (take p wstr')" winsch w] b by blast
qed

subsection \<open>The three engines\<close>

lemma winsnstr_Inr:
  assumes "winsnstr winsch (Some w) (Some s) n = Inr (rc, win')"
  shows "\<exists>us w'. win' = Some w' \<and> (rc, w') = insert_all winsch w us"
proof -
  from assms obtain l r where
    r: "winsnstr_loop winsch w s (if n < 0 \<or> n < int_of_size l then int_of_size l else n) = Inr r"
    and res: "(rc, win') = (fst r, Some (snd r))"
    by (auto simp: winsnstr_def Let_def split: sum.splits prod.splits)
  from winsnstr_loop_Inr [OF r] res show ?thesis
    by (metis prod.collapse prod.inject)
qed

lemma wins_nwstr_Inr:
  assumes "wins_nwstr winsch (Some w) (Some s) n = Inr (rc, win')"
  shows "\<exists>us w'. win' = Some w' \<and> (rc, w') = insert_all winsch w us"
proof -
  from assms obtain len r where
    r: "wins_nwstr_loop winsch w s (if n < 0 \<or> n < len then len else n) = Inr r"
    and res: "(rc, win') = (fst r, Some (snd r))"
    by (auto simp: wins_nwstr_def Let_def split: sum.splits prod.splits)
  from wins_nwstr_loop_Inr [OF r] res show ?thesis
    by (metis prod.collapse prod.inject)
qed

lemma winsnstr_units:
  assumes "strlen s = Inr l"
    and "0 \<le> effective_count (int_of_size l) n"
    and "effective_count (int_of_size l) n \<le> int (length s)"
  shows "winsnstr winsch (Some w) (Some s) n =
     Inr (fst (insert_all winsch w (rev (map ucast (take (nat (effective_count (int_of_size l) n)) s)))),
          Some (snd (insert_all winsch w
                  (rev (map ucast (take (nat (effective_count (int_of_size l) n)) s))))))"
proof -
  define m where "m = effective_count (int_of_size l) n"
  have "nat m \<le> length s" using assms(3) by (simp add: m_def)
  from winsnstr_loop_insert_all [OF this, of winsch w] assms(2)
  have "winsnstr_loop winsch w s m = Inr (insert_all winsch w (rev (map ucast (take (nat m) s))))"
    by (simp add: m_def)
  then show ?thesis
    using assms(1) by (simp add: winsnstr_def Let_def effective_count_def m_def split: prod.splits)
qed

lemma wins_nwstr_units:
  assumes "wins_nwstr_len s 0 = Inr len"
    and "effective_count len n \<le> int (length s)"
  shows "wins_nwstr winsch (Some w) (Some s) n =
     Inr (fst (insert_all winsch w (rev (take (nat (effective_count len n)) s))),
          Some (snd (insert_all winsch w (rev (take (nat (effective_count len n)) s)))))"
proof -
  define m where "m = effective_count len n"
  have "0 \<le> len" using wins_nwstr_len_Inr [OF assms(1)] by simp
  then have m0: "0 \<le> m" by (simp add: m_def effective_count_def)
  have "nat m \<le> length s" using assms(2) by (simp add: m_def)
  from wins_nwstr_loop_insert_all [OF this, of winsch w] m0
  have "wins_nwstr_loop winsch w s m = Inr (insert_all winsch w (rev (take (nat m) s)))"
    by simp
  then show ?thesis
    using assms(1) by (simp add: wins_nwstr_def Let_def effective_count_def m_def split: prod.splits)
qed

lemma winsnstr_wide_budget:
  "strlen s = Inr l \<Longrightarrow>
   winsnstr_wide mb winsch (Some w) (Some s) n =
    (case winsnstr_decode mb s (byte_budget l n) (replicate 513 None) 0 0 of
       Inl e \<Rightarrow> Inl e
     | Inr (wstr, p) \<Rightarrow>
         (case winsnstr_insert winsch w wstr p of
            Inl e \<Rightarrow> Inl e
          | Inr (rc, w') \<Rightarrow> Inr (rc, Some w')))"
  by (simp add: winsnstr_wide_def byte_budget_def Let_def)

lemma byte_budget_le: "byte_budget l n \<le> 512"
  by (simp add: byte_budget_def Let_def)

lemma winsnstr_wide_Inr:
  assumes "winsnstr_wide mb winsch (Some w) (Some s) n = Inr (rc, win')"
  shows "\<exists>us w'. win' = Some w' \<and> length us \<le> 512 \<and> (rc, w') = insert_all winsch w us"
proof -
  from assms obtain l wstr' p r where
    d: "winsnstr_decode mb s
          (if 512 < (if n < 0 \<or> n < int_of_size l then int_of_size l else n) then 512
           else (if n < 0 \<or> n < int_of_size l then int_of_size l else n))
          (replicate 513 None) 0 0 = Inr (wstr', p)"
    and r: "winsnstr_insert winsch w wstr' p = Inr r"
    and res: "(rc, win') = (fst r, Some (snd r))"
    by (auto simp: winsnstr_wide_def Let_def split: sum.splits prod.splits)
  from winsnstr_decode_insert [OF d, of winsch w] r
  have p: "p \<le> 513" "int p \<le> 512" and
    "r = insert_all winsch w (rev (map the (take p wstr')))"
    by (auto split: if_splits)
  with res have "win' = Some (snd r)" "length (rev (map the (take p wstr'))) \<le> 512"
      "(rc, snd r) = insert_all winsch w (rev (map the (take p wstr')))"
    by auto
  then show ?thesis by blast
qed

lemma winsnstr_wide_no_buffer_fault:
  "winsnstr_wide mb winsch win str n \<noteq> Inl BufferOverflow
   \<and> winsnstr_wide mb winsch win str n \<noteq> Inl Uninitialised"
proof (cases "\<exists>w s l. win = Some w \<and> str = Some s \<and> strlen s = Inr l")
  case False
  then show ?thesis
    by (auto simp: winsnstr_wide_def dest: strlen_fault split: option.splits sum.splits)
next
  case True
  then obtain w s l where t: "win = Some w" "str = Some s" "strlen s = Inr l" by blast
  define m where "m = (if n < 0 \<or> n < int_of_size l then int_of_size l else n)"
  define n' where "n' = (if 512 < m then 512 else m)"
  have n': "n' \<le> 512" by (simp add: n'_def)
  have unf: "winsnstr_wide mb winsch win str n =
    (case winsnstr_decode mb s n' (replicate 513 None) 0 0 of
       Inl e \<Rightarrow> Inl e
     | Inr (wstr, p) \<Rightarrow>
         (case winsnstr_insert winsch w wstr p of
            Inl e \<Rightarrow> Inl e
          | Inr (rc, w') \<Rightarrow> Inr (rc, Some w')))"
    by (simp add: winsnstr_wide_def t Let_def n'_def m_def)
  have nb: "winsnstr_decode mb s n' (replicate 513 None) 0 0 \<noteq> Inl BufferOverflow"
    using n' by (intro winsnstr_decode_no_overflow) simp
  have nu: "winsnstr_decode mb s n' (replicate 513 None) 0 0 \<noteq> Inl Uninitialised"
    by (rule winsnstr_decode_initialised)
  show ?thesis
  proof (cases "winsnstr_decode mb s n' (replicate 513 None) 0 0")
    case (Inl e)
    with nb nu unf show ?thesis by simp
  next
    case (Inr r)
    obtain wstr' p where r: "r = (wstr', p)" by (cases r)
    from winsnstr_decode_insert [OF Inr [unfolded r], of winsch w]
    show ?thesis
      by (simp add: unf Inr r split: prod.splits)
  qed
qed

lemma winsnstr_wide_decodes:
  assumes len: "strlen s = Inr l"
    and dec: "decodes mb s (byte_budget l n) 0 us j"
    and stop: "index s j = Inr c"
      "c = 0 \<or> byte_budget l n \<le> j \<or> fst (mb (drop (nat j) s) (byte_budget l n - j)) \<le> 0"
    and j: "j \<le> INT_MAX"
  shows "winsnstr_wide mb winsch (Some w) (Some s) n =
     Inr (fst (insert_all winsch w (rev us)), Some (snd (insert_all winsch w (rev us))))"
proof -
  define b where "b = byte_budget l n"
  have b: "b \<le> 512" by (simp add: b_def byte_budget_le)
  have lu: "length us < 513"
    using decodes_length [OF dec] b by (simp add: b_def)
  define wstr where "wstr = map Some us @ drop (length us) (replicate 513 None :: 'a option list)"
  have lw: "length wstr = 513" using lu by (simp add: wstr_def)
  have "winsnstr_decode mb s b (replicate 513 None) 0 0 = winsnstr_decode mb s b wstr (length us) j"
    using decodes_run [OF dec j, of 0 "replicate 513 None"] lu by (simp add: b_def wstr_def)
  also have "\<dots> = Inr (wstr, length us)"
  proof -
    have "\<not> decode_continues mb s b wstr (length us) j"
      using stop by (auto simp: decode_continues_def b_def)
    from winsnstr_decode_stop [OF this] stop lu lw show ?thesis
      by (auto simp: b_def)
  qed
  finally have d: "winsnstr_decode mb s b (replicate 513 None) 0 0 = Inr (wstr, length us)" .
  have cells: "\<forall>k<length us. wstr ! k = Some (us ! k)"
    by (simp add: wstr_def nth_append)
  have ins: "winsnstr_insert winsch w wstr (length us) = Inr (insert_all winsch w (rev us))"
    using lw lu by (intro winsnstr_insert_insert_all cells) simp_all
  from d ins show ?thesis
    by (simp add: winsnstr_wide_budget [OF len] b_def [symmetric] split: prod.splits)
qed

subsection \<open>The collaborators of the specification\<close>

lemma only_cursor_row_refl: "only_cursor_row w w"
  by (simp add: only_cursor_row_def)

lemma only_cursor_row_trans:
  assumes "only_cursor_row a b" "only_cursor_row b c"
  shows "only_cursor_row a c"
proof -
  from assms(1) have b: "b = a\<lparr>rows := (rows a)[cury a := rows b ! cury a]\<rparr>"
    by (simp add: only_cursor_row_def)
  then have yb: "cury b = cury a" and rb: "rows b = (rows a)[cury a := rows b ! cury a]"
    by (metis (mono_tags) window.select_convs(1) window.surjective window.update_convs(3),
        metis (mono_tags) window.select_convs(3) window.surjective window.update_convs(3))
  from assms(2) have c: "c = b\<lparr>rows := (rows b)[cury b := rows c ! cury b]\<rparr>"
    by (simp add: only_cursor_row_def)
  have "(rows b)[cury b := rows c ! cury b] = (rows a)[cury a := rows c ! cury a]"
    by (subst rb) (simp add: yb)
  with c b have "c = a\<lparr>rows := (rows a)[cury a := rows c ! cury a]\<rparr>"
    by (metis (no_types, lifting) window.update_convs(3) window.surjective)
  then show ?thesis by (simp add: only_cursor_row_def)
qed

lemma insert_cell_only_cursor_row: "only_cursor_row w (snd (insert_cell w c))"
  by (simp add: only_cursor_row_def insert_cell_def)

lemma insert_all_only_cursor_row:
  assumes "\<forall>w c. only_cursor_row w (snd (winsch w c))"
  shows "only_cursor_row w (snd (insert_all winsch w us))"
  using assms
  by (intro insert_all_invariant [where R = only_cursor_row])
     (auto intro: only_cursor_row_refl only_cursor_row_trans)

lemma take_shifted:
  assumes "x < length l"
  shows "take (length l) (take x l @ us @ c # butlast (drop x l))
       = take (length l) (take x l @ (us @ [c]) @ drop x l)"
proof -
  have ne: "drop x l \<noteq> []" using assms by simp
  have "take x l @ us @ c # butlast (drop x l) = butlast ((take x l @ us @ [c]) @ drop x l)"
    using ne by (simp add: butlast_append)
  moreover have "length l < length ((take x l @ us @ [c]) @ drop x l)"
    using assms by simp
  ultimately show ?thesis
    by (simp only: take_butlast append_assoc)
qed

lemma insert_all_insert_cell:
  assumes "cury w < length (rows w)" "curx w < length (rows w ! cury w)"
  shows "insert_all insert_cell w cs =
     (OK, w\<lparr>rows := (rows w)[cury w :=
        take (length (rows w ! cury w))
          (take (curx w) (rows w ! cury w) @ rev cs @ drop (curx w) (rows w ! cury w))]\<rparr>)"
  using assms
proof (induction cs arbitrary: w)
  case Nil
  then show ?case by simp
next
  case (Cons c cs)
  define l where "l = rows w ! cury w"
  define l1 where "l1 = take (curx w) l @ c # butlast (drop (curx w) l)"
  define w1 where "w1 = w\<lparr>rows := (rows w)[cury w := l1]\<rparr>"
  have x: "curx w < length l" using Cons.prems by (simp add: l_def)
  have step: "insert_cell w c = (OK, w1)"
    using Cons.prems by (simp add: insert_cell_def w1_def l1_def l_def)
  have len1: "length l1 = length l" using x by (simp add: l1_def)
  have w1: "cury w1 = cury w" "curx w1 = curx w" "rows w1 ! cury w1 = l1"
      "length (rows w1) = length (rows w)"
    using Cons.prems by (simp_all add: w1_def)
  have tk: "take (curx w) l1 = take (curx w) l" using x by (simp add: l1_def)
  have dr: "drop (curx w) l1 = c # butlast (drop (curx w) l)" using x by (simp add: l1_def)
  have ih: "insert_all insert_cell w1 cs =
     (OK, w1\<lparr>rows := (rows w1)[cury w1 :=
        take (length l1) (take (curx w1) l1 @ rev cs @ drop (curx w1) l1)]\<rparr>)"
    using Cons.IH [of w1] Cons.prems w1 len1 x by simp
  have "take (length l1) (take (curx w1) l1 @ rev cs @ drop (curx w1) l1)
      = take (length l) (take (curx w) l @ rev (c # cs) @ drop (curx w) l)"
    using take_shifted [OF x, of "rev cs" c] by (simp add: w1 len1 tk dr)
  moreover have "\<And>r. w1\<lparr>rows := (rows w1)[cury w1 := r]\<rparr> = w\<lparr>rows := (rows w)[cury w := r]\<rparr>"
    by (simp add: w1_def)
  ultimately show ?case
    using step ih by (simp add: OK_def ERR_def l_def)
qed

lemma calls_of_insert_cell:
  assumes "cury w < length (rows w)" "curx w < length (rows w ! cury w)"
  shows "calls_of insert_cell w cs = map (\<lambda>c. (c, OK)) cs"
  using assms
proof (induction cs arbitrary: w)
  case Nil
  show ?case by simp
next
  case (Cons c cs)
  define w1 where "w1 = snd (insert_cell w c)"
  have step: "insert_cell w c = (OK, w1)"
    using Cons.prems by (simp add: insert_cell_def w1_def)
  have "cury w1 < length (rows w1)" "curx w1 < length (rows w1 ! cury w1)"
    using Cons.prems by (simp_all add: insert_cell_def w1_def)
  from Cons.IH [OF this] step show ?case
    by (simp add: OK_def ERR_def)
qed

lemma insert_all_inserted_at:
  assumes "cury w < length (rows w)" "curx w < length (rows w ! cury w)"
  shows "insert_all insert_cell w (rev us) = (OK, inserted_at w us)"
  using insert_all_insert_cell [OF assms, of "rev us"] by (simp add: inserted_at_def)

lemma engine_inserted_at:
  assumes "cury w < length (rows w)" "curx w < length (rows w ! cury w)"
  shows "fst (insert_all insert_cell w (rev us)) = OK"
    and "snd (insert_all insert_cell w (rev us)) = inserted_at w us"
    and "fst (insert_all (logged insert_cell) (w, []) (rev us)) = OK"
    and "snd (insert_all (logged insert_cell) (w, []) (rev us))
          = (inserted_at w us, map (\<lambda>c. (c, OK)) (rev us))"
  by (simp_all add: insert_all_inserted_at [OF assms] insert_all_logged
      calls_of_insert_cell [OF assms])

lemma decode_one_take: "0 < k \<Longrightarrow> decode_one (take (nat k) s) k = decode_one s k"
proof (cases s)
  case Nil
  then show ?thesis by (simp add: decode_one_def)
next
  case (Cons b s')
  assume k: "0 < k"
  then have t: "take (nat k) (b # s') = b # take (nat k - 1) s'"
    by (simp add: take_Cons')
  show ?thesis
  proof (cases s')
    case Nil
    with Cons t show ?thesis by (simp add: decode_one_def)
  next
    case (Cons b' s'')
    show ?thesis
    proof (cases "k < 2")
      case True
      with k have "nat k - 1 = 0" by simp
      with \<open>s = b # s'\<close> t True show ?thesis by (simp add: decode_one_def split: list.splits)
    next
      case False
      then have "nat k - 1 \<noteq> 0" by linarith
      then have "take (nat k - 1) (b' # s'') = b' # take (nat k - 1 - 1) s''"
        by (simp only: take_Cons' if_False)
      with \<open>s = b # s'\<close> Cons t False show ?thesis by (simp add: decode_one_def)
    qed
  qed
qed

lemma ascii_decodes:
  "i + k \<le> 512 \<Longrightarrow>
   decodes decode_one (replicate 600 97 @ [0]) 512 (int i) (replicate k 97) (int (i + k))"
proof (induction k arbitrary: i)
  case 0
  show ?case by (simp add: decodes_none)
next
  case (Suc k)
  then have i: "i < 512" by simp
  have ix: "index (replicate 600 97 @ [0 :: byte]) (int i) = Inr 97"
    using i by (simp add: index_def nth_append)
  have "drop i (replicate 600 97 @ [0 :: byte]) = replicate (600 - i) 97 @ [0]"
    using i by simp
  moreover have "600 - i = Suc (599 - i)" using i by simp
  ultimately have "drop i (replicate 600 97 @ [0 :: byte]) = 97 # replicate (599 - i) 97 @ [0]"
    by (simp only: replicate_Suc append_Cons)
  then have dc: "decode_one (drop (nat (int i)) (replicate 600 97 @ [0])) (512 - int i) = (1, 97)"
    using i by (simp add: decode_one_def)
  have "decodes decode_one (replicate 600 97 @ [0]) 512 (int i + 1) (replicate k 97) (int (Suc i + k))"
    using Suc.IH [of "Suc i"] Suc.prems by (simp add: add.commute)
  with decodes_unit [where mb = decode_one, OF ix _ _ dc] i show ?case
    by simp
qed

section \<open>The claims\<close>

text \<open>
  Claim C1: for a limit \<open>n\<close> with \<open>0 \<le> n \<le> strlen(source)\<close> the call inserts exactly \<open>n\<close>
  units, and for a larger limit exactly \<open>strlen(source)\<close> units. The header of the file says
  the same: the routines with \<open>n\<close> as the last argument insert at most \<open>n\<close> characters.
  The test of lines 112 and 260 is \<^verbatim>\<open>n < len\<close>, so a limit below the length is replaced by
  the length: with the limit 1 the string AB is inserted whole, by two calls of the
  primitive, in all three engines.
\<close>

theorem limit_below_length_is_ignored:
  "winsnstr (logged insert_cell) (Some (blank_window :: 16 word window, [])) (Some [65, 66, 0]) 1
     = Inr (OK, Some (\<lparr>cury = 0, curx = 1, rows = [[32, 65, 66, 32, 32]]\<rparr>,
                      [(66, OK), (65, OK)]))
   \<and> winsnstr_wide decode_one (logged insert_cell) (Some (blank_window, [])) (Some [65, 66, 0]) 1
     = Inr (OK, Some (\<lparr>cury = 0, curx = 1, rows = [[32, 65, 66, 32, 32]]\<rparr>,
                      [(66, OK), (65, OK)]))
   \<and> wins_nwstr (logged insert_cell) (Some (blank_window :: 32 word window, [])) (Some [65, 66, 0]) 1
     = Inr (OK, Some (\<lparr>cury = 0, curx = 1, rows = [[32, 65, 66, 32, 32]]\<rparr>,
                      [(66, OK), (65, OK)]))"
  by code_simp

text \<open>
  Claim C2: a limit above the length of the source is clamped to the length, so that
  nothing after the terminator is read. The same test leaves such a limit as it is. The
  array below holds the string AB, its terminator, and three more bytes; with the limit 4
  the insertion loops read positions 3 and 2, the terminator among them, and insert four
  units. On an array that ends with the terminator the read at position 3 is outside the
  array.
\<close>

theorem limit_above_length_is_not_clamped:
  "strlen [65, 66, 0, 67, 68, 0] = Inr 2
   \<and> winsnstr (logged insert_cell) (Some (blank_window :: 16 word window, []))
       (Some [65, 66, 0, 67, 68, 0]) 4
     = Inr (OK, Some (\<lparr>cury = 0, curx = 1, rows = [[32, 65, 66, 0, 67]]\<rparr>,
                      [(67, OK), (0, OK), (66, OK), (65, OK)]))
   \<and> wins_nwstr (logged insert_cell) (Some (blank_window :: 32 word window, []))
       (Some [65, 66, 0, 67, 68, 0]) 4
     = Inr (OK, Some (\<lparr>cury = 0, curx = 1, rows = [[32, 65, 66, 0, 67]]\<rparr>,
                      [(67, OK), (0, OK), (66, OK), (65, OK)]))
   \<and> winsnstr (logged insert_cell) (Some (blank_window :: 16 word window, []))
       (Some [65, 66, 0]) 4 = Inl OutOfBounds"
  by code_simp

text \<open>
  Claim C3: with a null window or a null source the call returns \<^verbatim>\<open>ERR\<close>, the primitive
  is not called and the window is unchanged. The result does not depend on the primitive,
  and under \<open>logged\<close> the list of calls comes back as it went in.
\<close>

theorem null_argument_is_error:
  "winsnstr winsch None str n = Inr (ERR, None)
   \<and> winsnstr winsch win None n = Inr (ERR, win)
   \<and> winsnstr (logged winsch) (Some (w, calls)) None n = Inr (ERR, Some (w, calls))
   \<and> winsnstr_wide mb winschw None str n = Inr (ERR, None)
   \<and> winsnstr_wide mb winschw winw None n = Inr (ERR, winw)
   \<and> winsnstr_wide mb (logged winschw) (Some (ww, callsw)) None n = Inr (ERR, Some (ww, callsw))
   \<and> wins_nwstr winschw None wstr n = Inr (ERR, None)
   \<and> wins_nwstr winschw winw None n = Inr (ERR, winw)
   \<and> wins_nwstr (logged winschw) (Some (ww, callsw)) None n = Inr (ERR, Some (ww, callsw))"
  by (simp add: winsnstr_def winsnstr_wide_def wins_nwstr_def split: option.splits)

theorem null_argument_is_error_witness:
  "winsnstr (logged insert_cell) (Some (blank_window :: 16 word window, [])) None 3
     = Inr (ERR, Some (blank_window, []))
   \<and> winsnstr (insert_cell :: 16 word window \<Rightarrow> _) None (Some [65, 66, 0]) 3 = Inr (ERR, None)
   \<and> winsnstr_wide decode_one (logged insert_cell) (Some (blank_window, [])) None 3
     = Inr (ERR, Some (blank_window, []))
   \<and> wins_nwstr (logged insert_cell) (Some (blank_window :: 32 word window, [])) None 3
     = Inr (ERR, Some (blank_window, []))"
  using null_argument_is_error [of "insert_cell :: 16 word window \<Rightarrow> _" "Some [65, 66, 0]" 3 None
      blank_window "[]" decode_one "insert_cell :: 32 word window \<Rightarrow> _" None blank_window "[]" None]
  by simp

text \<open>
  Claim C4: if the call number \<open>k + 1\<close> of the primitive returns \<^verbatim>\<open>ERR\<close>, the engine
  returns \<^verbatim>\<open>ERR\<close> at once, exactly \<open>k\<close> units have been inserted, no call follows, and
  nothing is rolled back. The units are the ones the engine selects, last unit first: the
  first \<open>effective_count\<close> elements of the source in the insertion loops of lines 147 to
  153 and 265 to 271, the decoded units in the wide \<^verbatim>\<open>winsnstr\<close>. Calls are counted from
  0, so \<open>fails_at winsch w us k\<close> says that the primitive accepts the first \<open>k\<close> of them
  and refuses the next. The window returned is then the one that refused call left,
  started on the window after the \<open>k\<close> insertions before it, and under \<open>logged\<close> the
  calls made are these \<open>k + 1\<close> and no other.
\<close>

theorem first_failure_aborts:
  "(strlen s = Inr l \<and> 0 \<le> effective_count (int_of_size l) n
      \<and> effective_count (int_of_size l) n \<le> int (length s)
      \<and> us = rev (map ucast (take (nat (effective_count (int_of_size l) n)) s))
      \<and> fails_at winsch w us k
    \<longrightarrow> winsnstr winsch (Some w) (Some s) n
          = Inr (ERR, Some (snd (winsch (replay winsch w (take k us)) (us ! k))))
      \<and> winsnstr (logged winsch) (Some (w, [])) (Some s) n
          = Inr (ERR, Some (snd (winsch (replay winsch w (take k us)) (us ! k)),
                            calls_until winsch w us k)))
   \<and> (strlen s = Inr l \<and> decodes mb s (byte_budget l n) 0 ds j \<and> index s j = Inr c
      \<and> (c = 0 \<or> byte_budget l n \<le> j
           \<or> fst (mb (drop (nat j) s) (byte_budget l n - j)) \<le> 0)
      \<and> j \<le> INT_MAX \<and> fails_at winschw ww (rev ds) k
    \<longrightarrow> winsnstr_wide mb winschw (Some ww) (Some s) n
          = Inr (ERR, Some (snd (winschw (replay winschw ww (take k (rev ds))) (rev ds ! k))))
      \<and> winsnstr_wide mb (logged winschw) (Some (ww, [])) (Some s) n
          = Inr (ERR, Some (snd (winschw (replay winschw ww (take k (rev ds))) (rev ds ! k)),
                            calls_until winschw ww (rev ds) k)))
   \<and> (wins_nwstr_len ws 0 = Inr len \<and> effective_count len n \<le> int (length ws)
      \<and> vs = rev (take (nat (effective_count len n)) ws)
      \<and> fails_at winschw ww vs k
    \<longrightarrow> wins_nwstr winschw (Some ww) (Some ws) n
          = Inr (ERR, Some (snd (winschw (replay winschw ww (take k vs)) (vs ! k))))
      \<and> wins_nwstr (logged winschw) (Some (ww, [])) (Some ws) n
          = Inr (ERR, Some (snd (winschw (replay winschw ww (take k vs)) (vs ! k)),
                            calls_until winschw ww vs k)))"
proof (intro conjI impI)
  assume a: "strlen s = Inr l \<and> 0 \<le> effective_count (int_of_size l) n
      \<and> effective_count (int_of_size l) n \<le> int (length s)
      \<and> us = rev (map ucast (take (nat (effective_count (int_of_size l) n)) s))
      \<and> fails_at winsch w us k"
  then have len: "strlen s = Inr l" and b0: "0 \<le> effective_count (int_of_size l) n"
    and b1: "effective_count (int_of_size l) n \<le> int (length s)"
    and us: "us = rev (map ucast (take (nat (effective_count (int_of_size l) n)) s))"
    and f: "fails_at winsch w us k"
    by blast+
  have k: "k < length us" using f by (simp add: fails_at_def)
  from insert_all_fails_at [OF f]
  show "winsnstr winsch (Some w) (Some s) n
          = Inr (ERR, Some (snd (winsch (replay winsch w (take k us)) (us ! k))))"
    and "winsnstr (logged winsch) (Some (w, [])) (Some s) n
          = Inr (ERR, Some (snd (winsch (replay winsch w (take k us)) (us ! k)),
                            calls_until winsch w us k))"
    by (simp_all add: winsnstr_units [OF len b0 b1] us [symmetric] insert_all_logged
        replay_take_Suc [OF k])
next
  assume a: "strlen s = Inr l \<and> decodes mb s (byte_budget l n) 0 ds j \<and> index s j = Inr c
      \<and> (c = 0 \<or> byte_budget l n \<le> j
           \<or> fst (mb (drop (nat j) s) (byte_budget l n - j)) \<le> 0)
      \<and> j \<le> INT_MAX \<and> fails_at winschw ww (rev ds) k"
  then have len: "strlen s = Inr l" and dec: "decodes mb s (byte_budget l n) 0 ds j"
    and ix: "index s j = Inr c"
    and stop: "c = 0 \<or> byte_budget l n \<le> j
           \<or> fst (mb (drop (nat j) s) (byte_budget l n - j)) \<le> 0"
    and j: "j \<le> INT_MAX" and f: "fails_at winschw ww (rev ds) k"
    by blast+
  have k: "k < length (rev ds)" using f by (simp add: fails_at_def)
  from insert_all_fails_at [OF f]
  show "winsnstr_wide mb winschw (Some ww) (Some s) n
          = Inr (ERR, Some (snd (winschw (replay winschw ww (take k (rev ds))) (rev ds ! k))))"
    and "winsnstr_wide mb (logged winschw) (Some (ww, [])) (Some s) n
          = Inr (ERR, Some (snd (winschw (replay winschw ww (take k (rev ds))) (rev ds ! k)),
                            calls_until winschw ww (rev ds) k))"
    by (simp_all add: winsnstr_wide_decodes [OF len dec ix stop j] insert_all_logged
        replay_take_Suc [OF k])
next
  assume a: "wins_nwstr_len ws 0 = Inr len \<and> effective_count len n \<le> int (length ws)
      \<and> vs = rev (take (nat (effective_count len n)) ws)
      \<and> fails_at winschw ww vs k"
  then have len: "wins_nwstr_len ws 0 = Inr len" and b: "effective_count len n \<le> int (length ws)"
    and vs: "vs = rev (take (nat (effective_count len n)) ws)" and f: "fails_at winschw ww vs k"
    by blast+
  have k: "k < length vs" using f by (simp add: fails_at_def)
  from insert_all_fails_at [OF f]
  show "wins_nwstr winschw (Some ww) (Some ws) n
          = Inr (ERR, Some (snd (winschw (replay winschw ww (take k vs)) (vs ! k))))"
    and "wins_nwstr (logged winschw) (Some (ww, [])) (Some ws) n
          = Inr (ERR, Some (snd (winschw (replay winschw ww (take k vs)) (vs ! k)),
                            calls_until winschw ww vs k))"
    by (simp_all add: wins_nwstr_units [OF len b] vs [symmetric] insert_all_logged
        replay_take_Suc [OF k])
qed

theorem first_failure_aborts_witness:
  "fails_at refuse_A (blank_window :: 16 word window) [67, 66, 65] 2
   \<and> winsnstr refuse_A (Some (blank_window :: 16 word window)) (Some [65, 66, 67, 0]) (- 1)
     = Inr (ERR, Some \<lparr>cury = 0, curx = 1, rows = [[32, 66, 67, 32, 32]]\<rparr>)
   \<and> winsnstr (logged refuse_A) (Some (blank_window :: 16 word window, []))
       (Some [65, 66, 67, 0]) (- 1)
     = Inr (ERR, Some (\<lparr>cury = 0, curx = 1, rows = [[32, 66, 67, 32, 32]]\<rparr>,
                       [(67, OK), (66, OK), (65, ERR)]))
   \<and> decodes decode_one [65, 66, 67, 0] (byte_budget 3 (- 1)) 0 [65, 66, 67] 3
   \<and> fails_at refuse_A (blank_window :: 32 word window) [67, 66, 65] 2
   \<and> winsnstr_wide decode_one refuse_A (Some blank_window) (Some [65, 66, 67, 0]) (- 1)
     = Inr (ERR, Some \<lparr>cury = 0, curx = 1, rows = [[32, 66, 67, 32, 32]]\<rparr>)
   \<and> winsnstr_wide decode_one (logged refuse_A) (Some (blank_window, []))
       (Some [65, 66, 67, 0]) (- 1)
     = Inr (ERR, Some (\<lparr>cury = 0, curx = 1, rows = [[32, 66, 67, 32, 32]]\<rparr>,
                       [(67, OK), (66, OK), (65, ERR)]))
   \<and> wins_nwstr refuse_A (Some (blank_window :: 32 word window)) (Some [65, 66, 67, 0]) (- 1)
     = Inr (ERR, Some \<lparr>cury = 0, curx = 1, rows = [[32, 66, 67, 32, 32]]\<rparr>)
   \<and> wins_nwstr (logged refuse_A) (Some (blank_window :: 32 word window, []))
       (Some [65, 66, 67, 0]) (- 1)
     = Inr (ERR, Some (\<lparr>cury = 0, curx = 1, rows = [[32, 66, 67, 32, 32]]\<rparr>,
                       [(67, OK), (66, OK), (65, ERR)]))"
proof -
  let ?s = "[65, 66, 67, 0] :: byte list"
  let ?ws = "[65, 66, 67, 0] :: 32 word list"
  let ?a = "blank_window :: 16 word window"
  let ?b = "blank_window :: 32 word window"
  have len: "strlen ?s = Inr 3" by simp
  have e: "effective_count (int_of_size 3) (- 1) = 3"
    by (simp add: effective_count_def int_of_size_small)
  have us: "[67, 66, 65 :: 16 word] = rev (map ucast (take (nat (effective_count (int_of_size 3) (- 1))) ?s))"
    by (simp add: e)
  have "fails_at refuse_A ?a [67, 66, 65] (Suc (Suc 0))"
    by (simp add: fails_at_Cons_Suc fails_at_Cons_0 refuse_A_def insert_cell_def
        blank_window_def OK_def ERR_def)
  then have fa: "fails_at refuse_A ?a [67, 66, 65] 2"
    by (simp only: numeral_2_eq_2)
  have "fails_at refuse_A ?b [67, 66, 65] (Suc (Suc 0))"
    by (simp add: fails_at_Cons_Suc fails_at_Cons_0 refuse_A_def insert_cell_def
        blank_window_def OK_def ERR_def)
  then have fb: "fails_at refuse_A ?b [67, 66, 65] 2"
    by (simp only: numeral_2_eq_2)
  have wa: "snd (refuse_A (replay refuse_A ?a (take 2 [67, 66, 65])) ([67, 66, 65] ! 2))
      = \<lparr>cury = 0, curx = 1, rows = [[32, 66, 67, 32, 32]]\<rparr>"
    by (simp add: replay_def refuse_A_def insert_cell_def blank_window_def OK_def ERR_def)
  have wb: "snd (refuse_A (replay refuse_A ?b (take 2 [67, 66, 65])) ([67, 66, 65] ! 2))
      = \<lparr>cury = 0, curx = 1, rows = [[32, 66, 67, 32, 32]]\<rparr>"
    by (simp add: replay_def refuse_A_def insert_cell_def blank_window_def OK_def ERR_def)
  have "calls_until refuse_A ?a [67, 66, 65] (Suc (Suc 0)) = [(67, OK), (66, OK), (65, ERR)]"
    by (simp add: calls_until_Cons_Suc calls_until_Cons_0 refuse_A_def insert_cell_def
        blank_window_def OK_def ERR_def)
  then have ca: "calls_until refuse_A ?a [67, 66, 65] 2 = [(67, OK), (66, OK), (65, ERR)]"
    by (simp only: numeral_2_eq_2)
  have "calls_until refuse_A ?b [67, 66, 65] (Suc (Suc 0)) = [(67, OK), (66, OK), (65, ERR)]"
    by (simp add: calls_until_Cons_Suc calls_until_Cons_0 refuse_A_def insert_cell_def
        blank_window_def OK_def ERR_def)
  then have cb: "calls_until refuse_A ?b [67, 66, 65] 2 = [(67, OK), (66, OK), (65, ERR)]"
    by (simp only: numeral_2_eq_2)
  have b: "byte_budget 3 (- 1) = 3" by (simp add: byte_budget_def int_of_size_small)
  have d2: "decodes decode_one ?s 3 2 [67] 3"
    by (rule decodes_unit [where c = 67 and retval = 1])
       (simp_all add: index_def decode_one_def decodes_none)
  have d1: "decodes decode_one ?s 3 1 [66, 67] 3"
    by (rule decodes_unit [where c = 66 and retval = 1])
       (simp_all add: index_def decode_one_def d2)
  have "decodes decode_one ?s 3 0 [65, 66, 67] 3"
    by (rule decodes_unit [where c = 65 and retval = 1])
       (simp_all add: index_def decode_one_def d1)
  then have dec: "decodes decode_one ?s (byte_budget 3 (- 1)) 0 [65, 66, 67] 3"
    by (simp add: b)
  have ix: "index ?s 3 = Inr 0" by (simp add: index_def)
  have j: "3 \<le> INT_MAX" by (simp add: INT_MAX_def)
  have fw: "fails_at refuse_A ?b (rev [65, 66, 67]) 2" using fb by simp
  have wl: "wins_nwstr_len ?ws 0 = Inr 3" by (simp add: INT_MAX_def)
  have ew: "effective_count 3 (- 1) = 3" by (simp add: effective_count_def)
  have vs: "[67, 66, 65 :: 32 word] = rev (take (nat (effective_count 3 (- 1))) ?ws)"
    by (simp add: ew)
  note t = first_failure_aborts [where s = ?s and l = 3 and n = "- 1"
      and us = "[67, 66, 65]" and winsch = "refuse_A :: 16 word window \<Rightarrow> _" and w = ?a
      and k = 2 and mb = decode_one and ds = "[65, 66, 67]" and j = 3 and c = 0
      and winschw = "refuse_A :: 32 word window \<Rightarrow> _" and ww = ?b and ws = ?ws and len = 3
      and vs = "[67, 66, 65]"]
  have e0: "0 \<le> effective_count (int_of_size 3) (- 1)" by (simp add: e)
  have e1: "effective_count (int_of_size 3) (- 1) \<le> int (length ?s)" by (simp add: e)
  have e2: "effective_count 3 (- 1) \<le> int (length ?ws)" by (simp add: ew)
  have st: "(0 :: byte) = 0 \<or> byte_budget 3 (- 1) \<le> 3
      \<or> fst (decode_one (drop (nat 3) ?s) (byte_budget 3 (- 1) - 3)) \<le> 0"
    by simp
  have n: "winsnstr refuse_A (Some ?a) (Some ?s) (- 1)
        = Inr (ERR, Some (snd (refuse_A (replay refuse_A ?a (take 2 [67, 66, 65]))
                                 ([67, 66, 65] ! 2))))
      \<and> winsnstr (logged refuse_A) (Some (?a, [])) (Some ?s) (- 1)
        = Inr (ERR, Some (snd (refuse_A (replay refuse_A ?a (take 2 [67, 66, 65]))
                                 ([67, 66, 65] ! 2)),
                          calls_until refuse_A ?a [67, 66, 65] 2))"
    by (rule t [THEN conjunct1, THEN mp]) (intro conjI len e0 e1 us fa)
  have v: "winsnstr_wide decode_one refuse_A (Some ?b) (Some ?s) (- 1)
        = Inr (ERR, Some (snd (refuse_A (replay refuse_A ?b (take 2 (rev [65, 66, 67])))
                                 (rev [65, 66, 67] ! 2))))
      \<and> winsnstr_wide decode_one (logged refuse_A) (Some (?b, [])) (Some ?s) (- 1)
        = Inr (ERR, Some (snd (refuse_A (replay refuse_A ?b (take 2 (rev [65, 66, 67])))
                                 (rev [65, 66, 67] ! 2)),
                          calls_until refuse_A ?b (rev [65, 66, 67]) 2))"
    by (rule t [THEN conjunct2, THEN conjunct1, THEN mp]) (intro conjI len dec ix st j fw)
  have u: "wins_nwstr refuse_A (Some ?b) (Some ?ws) (- 1)
        = Inr (ERR, Some (snd (refuse_A (replay refuse_A ?b (take 2 [67, 66, 65]))
                                 ([67, 66, 65] ! 2))))
      \<and> wins_nwstr (logged refuse_A) (Some (?b, [])) (Some ?ws) (- 1)
        = Inr (ERR, Some (snd (refuse_A (replay refuse_A ?b (take 2 [67, 66, 65]))
                                 ([67, 66, 65] ! 2)),
                          calls_until refuse_A ?b [67, 66, 65] 2))"
    by (rule t [THEN conjunct2, THEN conjunct2, THEN mp]) (intro conjI wl e2 vs fb)
  have r: "rev [65, 66, 67 :: 32 word] = [67, 66, 65]" by simp
  from n have n': "winsnstr refuse_A (Some ?a) (Some ?s) (- 1)
        = Inr (ERR, Some \<lparr>cury = 0, curx = 1, rows = [[32, 66, 67, 32, 32]]\<rparr>)
      \<and> winsnstr (logged refuse_A) (Some (?a, [])) (Some ?s) (- 1)
        = Inr (ERR, Some (\<lparr>cury = 0, curx = 1, rows = [[32, 66, 67, 32, 32]]\<rparr>,
                          [(67, OK), (66, OK), (65, ERR)]))"
    by (simp only: wa ca)
  from v have v': "winsnstr_wide decode_one refuse_A (Some ?b) (Some ?s) (- 1)
        = Inr (ERR, Some \<lparr>cury = 0, curx = 1, rows = [[32, 66, 67, 32, 32]]\<rparr>)
      \<and> winsnstr_wide decode_one (logged refuse_A) (Some (?b, [])) (Some ?s) (- 1)
        = Inr (ERR, Some (\<lparr>cury = 0, curx = 1, rows = [[32, 66, 67, 32, 32]]\<rparr>,
                          [(67, OK), (66, OK), (65, ERR)]))"
    by (simp only: r wb cb)
  from u have u': "wins_nwstr refuse_A (Some ?b) (Some ?ws) (- 1)
        = Inr (ERR, Some \<lparr>cury = 0, curx = 1, rows = [[32, 66, 67, 32, 32]]\<rparr>)
      \<and> wins_nwstr (logged refuse_A) (Some (?b, [])) (Some ?ws) (- 1)
        = Inr (ERR, Some (\<lparr>cury = 0, curx = 1, rows = [[32, 66, 67, 32, 32]]\<rparr>,
                          [(67, OK), (66, OK), (65, ERR)]))"
    by (simp only: wb cb)
  from fa fb dec n' v' u' show ?thesis by blast
qed

text \<open>
  Claim C5: in the wide build, when a decode step returns a non-positive value in the
  middle of the string, decoding stops there, exactly the units decoded so far are
  inserted, last decoded unit first, and the call returns \<^verbatim>\<open>OK\<close>, provided the primitive
  does not fail on these units.
\<close>

theorem decode_stoppage_is_not_an_error:
  assumes len: "strlen s = Inr l"
    and dec: "decodes mb s (byte_budget l n) 0 us j"
    and stop: "index s j = Inr c" "c \<noteq> 0" "j < byte_budget l n"
      "fst (mb (drop (nat j) s) (byte_budget l n - j)) \<le> 0"
    and ok: "fst (insert_all winsch w (rev us)) \<noteq> ERR"
  shows "\<exists>calls. winsnstr_wide mb (logged winsch) (Some (w, [])) (Some s) n
           = Inr (OK, Some (replay winsch w (rev us), calls))
         \<and> map fst calls = rev us"
proof -
  have "j < 512" using stop(3) byte_budget_le [of l n] by simp
  then have j: "j \<le> INT_MAX" by (simp add: INT_MAX_def)
  have "winsnstr_wide mb (logged winsch) (Some (w, [])) (Some s) n
      = Inr (OK, Some (replay winsch w (rev us), calls_of winsch w (rev us)))"
    using insert_all_no_failure [OF ok] stop(4)
    by (simp add: winsnstr_wide_decodes [OF len dec stop(1) _ j] insert_all_logged)
  then show ?thesis
    using insert_all_no_failure [OF ok] by blast
qed

theorem decode_stoppage_is_not_an_error_witness:
  "strlen [65, 255, 66, 0] = Inr 3
   \<and> decodes decode_one [65, 255, 66, 0] (byte_budget 3 (- 1)) 0 [65] 1
   \<and> index [65, 255, 66, 0 :: byte] 1 = Inr 255
   \<and> fst (decode_one (drop (nat 1) [65, 255, 66, 0]) (byte_budget 3 (- 1) - 1)) \<le> 0
   \<and> fst (insert_all insert_cell (blank_window :: 32 word window) (rev [65])) \<noteq> ERR
   \<and> (\<exists>calls. winsnstr_wide decode_one (logged insert_cell) (Some (blank_window, []))
                  (Some [65, 255, 66, 0]) (- 1)
                = Inr (OK, Some (replay insert_cell blank_window (rev [65]), calls))
              \<and> map fst calls = rev [65])
   \<and> replay insert_cell (blank_window :: 32 word window) (rev [65])
       = \<lparr>cury = 0, curx = 1, rows = [[32, 65, 32, 32, 32]]\<rparr>"
proof -
  have b: "byte_budget 3 (- 1) = 3" by code_simp
  have l: "strlen [65, 255, 66, 0] = Inr 3" by simp
  have "decodes decode_one [65, 255, 66, 0] 3 0 [65] (0 + 1)"
    by (rule decodes_unit [where c = 65 and retval = 1])
       (simp_all add: index_def decode_one_def decodes_none)
  then have d: "decodes decode_one [65, 255, 66, 0] (byte_budget 3 (- 1)) 0 [65] 1"
    by (simp add: b)
  have i: "index [65, 255, 66, 0 :: byte] 1 = Inr 255" by (simp add: index_def)
  have z: "(255 :: byte) \<noteq> 0" by simp
  have j: "1 < byte_budget 3 (- 1)" by (simp add: b)
  have f: "fst (decode_one (drop (nat 1) [65, 255, 66, 0]) (byte_budget 3 (- 1) - 1)) \<le> 0"
    by (simp add: b decode_one_def)
  have k: "fst (insert_all insert_cell (blank_window :: 32 word window) (rev [65])) \<noteq> ERR"
    by code_simp
  have r: "replay insert_cell (blank_window :: 32 word window) (rev [65])
       = \<lparr>cury = 0, curx = 1, rows = [[32, 65, 32, 32, 32]]\<rparr>"
    by code_simp
  from decode_stoppage_is_not_an_error [OF l d i z j f k] l d i f k r show ?thesis
    by blast
qed

text \<open>
  Claim C6: the wide \<^verbatim>\<open>winsnstr\<close> inserts at most 512 units whatever the source and the
  limit, and no decode step goes past the budget of 512 bytes: the decoder is consulted
  only at a byte position \<open>j\<close> with a budget \<open>k\<close> such that \<open>j + k \<le> 512\<close>, so two decoders
  that agree there give the same result.
\<close>

theorem wide_build_inserts_at_most_512:
  assumes "\<forall>j k. 0 \<le> j \<and> 0 < k \<and> j + k \<le> 512
                 \<longrightarrow> mb (drop (nat j) s) k = mb' (drop (nat j) s) k"
  shows "winsnstr_wide mb winsch win (Some s) n = winsnstr_wide mb' winsch win (Some s) n
       \<and> (winsnstr_wide mb (logged winsch) (Some (w, [])) str n = Inr (rc, Some (w', calls))
            \<longrightarrow> length calls \<le> 512)"
proof (intro conjI impI)
  show "winsnstr_wide mb winsch win (Some s) n = winsnstr_wide mb' winsch win (Some s) n"
  proof (cases "\<exists>v l. win = Some v \<and> strlen s = Inr l")
    case False
    then show ?thesis
      by (auto simp: winsnstr_wide_def split: option.splits sum.splits)
  next
    case True
    then obtain v l where t: "win = Some v" "strlen s = Inr l" by blast
    have "\<forall>j. 0 \<le> j \<and> j < byte_budget l n \<longrightarrow>
        mb (drop (nat j) s) (byte_budget l n - j) = mb' (drop (nat j) s) (byte_budget l n - j)"
      using assms byte_budget_le [of l n] by simp
    from winsnstr_decode_cong [OF this]
    show ?thesis
      by (simp add: t winsnstr_wide_budget)
  qed
next
  assume a: "winsnstr_wide mb (logged winsch) (Some (w, [])) str n = Inr (rc, Some (w', calls))"
  show "length calls \<le> 512"
  proof (cases str)
    case None
    with a show ?thesis by (simp add: winsnstr_wide_def)
  next
    case (Some t)
    with a winsnstr_wide_Inr [of mb "logged winsch" "(w, [])" t n rc "Some (w', calls)"]
    obtain us where us: "length us \<le> 512" "insert_all (logged winsch) (w, []) us = (rc, (w', calls))"
      by auto
    then have "calls = calls_of winsch w us" by (simp add: insert_all_logged)
    with us(1) calls_of_length [of winsch w us] show ?thesis by simp
  qed
qed

theorem wide_build_inserts_at_most_512_witness:
  "winsnstr_wide decode_one insert_cell (Some blank_window) (Some (replicate 600 97 @ [0])) (- 1)
       = winsnstr_wide (\<lambda>s k. decode_one (take (nat k) s) k) insert_cell (Some blank_window)
           (Some (replicate 600 97 @ [0])) (- 1)
   \<and> winsnstr_wide decode_one (logged insert_cell) (Some (blank_window, []))
         (Some (replicate 600 97 @ [0])) (- 1)
       = Inr (OK, Some (\<lparr>cury = 0, curx = 1, rows = [[32, 97, 97, 97, 97]]\<rparr>,
                         replicate 512 (97, OK)))
   \<and> length (replicate 512 (97 :: 32 word, OK)) \<le> 512"
proof -
  let ?s = "replicate 600 97 @ [0] :: byte list"
  let ?us = "replicate 512 97 :: 32 word list"
  let ?mb = "\<lambda>s k. decode_one (take (nat k) s) k"
  let ?w = "\<lparr>cury = 0, curx = 1, rows = [[32, 97, 97, 97, 97 :: 32 word]]\<rparr>"
  have h: "\<forall>j k. 0 \<le> j \<and> 0 < k \<and> j + k \<le> 512 \<longrightarrow>
      decode_one (drop (nat j) ?s) k = ?mb (drop (nat j) ?s) k"
  proof (intro allI impI)
    fix j k :: int
    assume "0 \<le> j \<and> 0 < k \<and> j + k \<le> 512"
    then have k: "0 < k" by simp
    show "decode_one (drop (nat j) ?s) k = ?mb (drop (nat j) ?s) k"
      by (simp only: decode_one_take [OF k])
  qed
  have len: "strlen ?s = Inr 600" by (simp add: strlen_replicate)
  have b: "byte_budget 600 (- 1) = 512" by (simp add: byte_budget_def int_of_size_small)
  have dec: "decodes decode_one ?s (byte_budget 600 (- 1)) 0 ?us 512"
    using ascii_decodes [of 0 512] by (simp add: b)
  have ix: "index ?s 512 = Inr 97" by (simp add: index_def nth_append)
  have stop: "(97 :: byte) = 0 \<or> byte_budget 600 (- 1) \<le> 512
      \<or> fst (decode_one (drop (nat 512) ?s) (byte_budget 600 (- 1) - 512)) \<le> 0"
    by (simp add: b)
  have j: "512 \<le> INT_MAX" by (simp add: INT_MAX_def)
  have v: "cury (blank_window :: 32 word window) < length (rows (blank_window :: 32 word window))"
    "curx (blank_window :: 32 word window)
       < length (rows (blank_window :: 32 word window) ! cury (blank_window :: 32 word window))"
    by (simp_all add: blank_window_def)
  have line: "take 5 ([32] @ ?us @ [32, 32, 32, 32]) = [32, 97, 97, 97, 97 :: 32 word]"
    by code_simp
  have ia: "insert_all insert_cell (blank_window :: 32 word window) ?us = (OK, ?w)"
    using line by (simp add: insert_all_insert_cell [OF v]) (simp add: blank_window_def)
  have ca: "calls_of insert_cell (blank_window :: 32 word window) ?us = replicate 512 (97, OK)"
    by (simp add: calls_of_insert_cell [OF v])
  have r: "winsnstr_wide decode_one (logged insert_cell) (Some (blank_window, [])) (Some ?s) (- 1)
       = Inr (OK, Some (?w, replicate 512 (97, OK)))"
    by (simp add: winsnstr_wide_decodes [OF len dec ix stop j] insert_all_logged ia ca)
  note t = wide_build_inserts_at_most_512 [OF h, where winsch = insert_cell
      and win = "Some blank_window" and n = "- 1" and w = blank_window and str = "Some ?s"
      and rc = OK and w' = ?w and calls = "replicate 512 (97, OK)"]
  from t r show ?thesis by simp
qed

text \<open>
  Claim C7: with the primitive of the specification, inserting a string without a limit
  calls the primitive on its units last unit first, and leaves them in the line in
  reading order from the cursor column on, the old content from the cursor on moved
  right behind them, and what passes the right edge lost; AB on a blank line reads AB at
  the cursor. This holds for the insertion loop of the narrow \<^verbatim>\<open>winsnstr\<close>, for the
  decoded units and the insertion loop of the wide \<^verbatim>\<open>winsnstr\<close>, whatever the decoder,
  and for \<^verbatim>\<open>wins_nwstr\<close>.
\<close>

theorem string_reads_forward_after_insertion:
  "(strlen s = Inr l \<and> l < 2147483648 \<and> n < 0
      \<and> cury w < length (rows w) \<and> curx w < length (rows w ! cury w)
    \<longrightarrow> winsnstr insert_cell (Some w) (Some s) n
          = Inr (OK, Some (inserted_at w (map ucast (take l s))))
      \<and> winsnstr (logged insert_cell) (Some (w, [])) (Some s) n
          = Inr (OK, Some (inserted_at w (map ucast (take l s)),
                           map (\<lambda>c. (ucast c, OK)) (rev (take l s)))))
   \<and> (strlen s = Inr l \<and> decodes mb s (byte_budget l n) 0 ds j \<and> index s j = Inr c
      \<and> (c = 0 \<or> byte_budget l n \<le> j
           \<or> fst (mb (drop (nat j) s) (byte_budget l n - j)) \<le> 0)
      \<and> j \<le> INT_MAX
      \<and> cury ww < length (rows ww) \<and> curx ww < length (rows ww ! cury ww)
    \<longrightarrow> winsnstr_wide mb insert_cell (Some ww) (Some s) n
          = Inr (OK, Some (inserted_at ww ds))
      \<and> winsnstr_wide mb (logged insert_cell) (Some (ww, [])) (Some s) n
          = Inr (OK, Some (inserted_at ww ds, map (\<lambda>u. (u, OK)) (rev ds))))
   \<and> (wins_nwstr_len ws 0 = Inr len \<and> n < 0
      \<and> cury ww < length (rows ww) \<and> curx ww < length (rows ww ! cury ww)
    \<longrightarrow> wins_nwstr insert_cell (Some ww) (Some ws) n
          = Inr (OK, Some (inserted_at ww (take (nat len) ws)))
      \<and> wins_nwstr (logged insert_cell) (Some (ww, [])) (Some ws) n
          = Inr (OK, Some (inserted_at ww (take (nat len) ws),
                           map (\<lambda>u. (u, OK)) (rev (take (nat len) ws)))))"
proof (intro conjI impI)
  assume a: "strlen s = Inr l \<and> l < 2147483648 \<and> n < 0
      \<and> cury w < length (rows w) \<and> curx w < length (rows w ! cury w)"
  then have len: "strlen s = Inr l" and l: "l < 2147483648" and n: "n < 0"
    and v: "cury w < length (rows w)" "curx w < length (rows w ! cury w)"
    by blast+
  have e: "effective_count (int_of_size l) n = int l"
    using l n by (simp add: effective_count_def int_of_size_small)
  have b: "0 \<le> effective_count (int_of_size l) n"
      "effective_count (int_of_size l) n \<le> int (length s)"
    using strlen_Inr [OF len] by (simp_all add: e)
  have r: "rev (map ucast (take l s)) = map ucast (rev (take l s))" by (simp add: rev_map)
  show "winsnstr insert_cell (Some w) (Some s) n
          = Inr (OK, Some (inserted_at w (map ucast (take l s))))"
    and "winsnstr (logged insert_cell) (Some (w, [])) (Some s) n
          = Inr (OK, Some (inserted_at w (map ucast (take l s)),
                           map (\<lambda>c. (ucast c, OK)) (rev (take l s))))"
    using engine_inserted_at [OF v, of "map ucast (take l s)"]
    by (simp_all add: winsnstr_units [OF len b] e rev_map comp_def)
next
  assume a: "strlen s = Inr l \<and> decodes mb s (byte_budget l n) 0 ds j \<and> index s j = Inr c
      \<and> (c = 0 \<or> byte_budget l n \<le> j
           \<or> fst (mb (drop (nat j) s) (byte_budget l n - j)) \<le> 0)
      \<and> j \<le> INT_MAX
      \<and> cury ww < length (rows ww) \<and> curx ww < length (rows ww ! cury ww)"
  then have len: "strlen s = Inr l" and dec: "decodes mb s (byte_budget l n) 0 ds j"
    and ix: "index s j = Inr c"
    and stop: "c = 0 \<or> byte_budget l n \<le> j
           \<or> fst (mb (drop (nat j) s) (byte_budget l n - j)) \<le> 0"
    and j: "j \<le> INT_MAX"
    and v: "cury ww < length (rows ww)" "curx ww < length (rows ww ! cury ww)"
    by blast+
  show "winsnstr_wide mb insert_cell (Some ww) (Some s) n
          = Inr (OK, Some (inserted_at ww ds))"
    and "winsnstr_wide mb (logged insert_cell) (Some (ww, [])) (Some s) n
          = Inr (OK, Some (inserted_at ww ds, map (\<lambda>u. (u, OK)) (rev ds)))"
    by (simp_all add: winsnstr_wide_decodes [OF len dec ix stop j] engine_inserted_at [OF v])
next
  assume a: "wins_nwstr_len ws 0 = Inr len \<and> n < 0
      \<and> cury ww < length (rows ww) \<and> curx ww < length (rows ww ! cury ww)"
  then have len: "wins_nwstr_len ws 0 = Inr len" and n: "n < 0"
    and v: "cury ww < length (rows ww)" "curx ww < length (rows ww ! cury ww)"
    by blast+
  have e: "effective_count len n = len" using n by (simp add: effective_count_def)
  have b: "effective_count len n \<le> int (length ws)"
    using wins_nwstr_len_Inr [OF len] by (simp add: e)
  show "wins_nwstr insert_cell (Some ww) (Some ws) n
          = Inr (OK, Some (inserted_at ww (take (nat len) ws)))"
    and "wins_nwstr (logged insert_cell) (Some (ww, [])) (Some ws) n
          = Inr (OK, Some (inserted_at ww (take (nat len) ws),
                           map (\<lambda>u. (u, OK)) (rev (take (nat len) ws))))"
    by (simp_all add: wins_nwstr_units [OF len b] e engine_inserted_at [OF v])
qed

theorem string_reads_forward_after_insertion_witness:
  "strlen [65, 66, 0] = Inr 2
   \<and> winsnstr insert_cell (Some (blank_window :: 16 word window)) (Some [65, 66, 0]) (- 1)
     = Inr (OK, Some \<lparr>cury = 0, curx = 1, rows = [[32, 65, 66, 32, 32]]\<rparr>)
   \<and> winsnstr (logged insert_cell) (Some (blank_window :: 16 word window, []))
       (Some [65, 66, 0]) (- 1)
     = Inr (OK, Some (\<lparr>cury = 0, curx = 1, rows = [[32, 65, 66, 32, 32]]\<rparr>,
                      [(66, OK), (65, OK)]))
   \<and> decodes decode_one [65, 66, 0] (byte_budget 2 (- 1)) 0 [65, 66] 2
   \<and> winsnstr_wide decode_one insert_cell (Some blank_window) (Some [65, 66, 0]) (- 1)
     = Inr (OK, Some \<lparr>cury = 0, curx = 1, rows = [[32, 65, 66, 32, 32]]\<rparr>)
   \<and> winsnstr_wide decode_one (logged insert_cell) (Some (blank_window, []))
       (Some [65, 66, 0]) (- 1)
     = Inr (OK, Some (\<lparr>cury = 0, curx = 1, rows = [[32, 65, 66, 32, 32]]\<rparr>,
                      [(66, OK), (65, OK)]))
   \<and> wins_nwstr insert_cell (Some (blank_window :: 32 word window)) (Some [65, 66, 0]) (- 1)
     = Inr (OK, Some \<lparr>cury = 0, curx = 1, rows = [[32, 65, 66, 32, 32]]\<rparr>)
   \<and> wins_nwstr (logged insert_cell) (Some (blank_window :: 32 word window, []))
       (Some [65, 66, 0]) (- 1)
     = Inr (OK, Some (\<lparr>cury = 0, curx = 1, rows = [[32, 65, 66, 32, 32]]\<rparr>,
                      [(66, OK), (65, OK)]))"
proof -
  let ?s = "[65, 66, 0] :: byte list"
  let ?ws = "[65, 66, 0] :: 32 word list"
  let ?a = "blank_window :: 16 word window"
  let ?b = "blank_window :: 32 word window"
  have len: "strlen ?s = Inr 2" by simp
  have l: "(2 :: nat) < 2147483648" by simp
  have n: "(- 1 :: int) < 0" by simp
  have va: "cury ?a < length (rows ?a)" "curx ?a < length (rows ?a ! cury ?a)"
    by (simp_all add: blank_window_def)
  have vb: "cury ?b < length (rows ?b)" "curx ?b < length (rows ?b ! cury ?b)"
    by (simp_all add: blank_window_def)
  have b: "byte_budget 2 (- 1) = 2" by (simp add: byte_budget_def int_of_size_small)
  have d1: "decodes decode_one ?s 2 1 [66] 2"
    by (rule decodes_unit [where c = 66 and retval = 1])
       (simp_all add: index_def decode_one_def decodes_none)
  have "decodes decode_one ?s 2 0 [65, 66] 2"
    by (rule decodes_unit [where c = 65 and retval = 1])
       (simp_all add: index_def decode_one_def d1)
  then have dec: "decodes decode_one ?s (byte_budget 2 (- 1)) 0 [65, 66] 2"
    by (simp add: b)
  have ix: "index ?s 2 = Inr 0" by (simp add: index_def)
  have st: "(0 :: byte) = 0 \<or> byte_budget 2 (- 1) \<le> 2
      \<or> fst (decode_one (drop (nat 2) ?s) (byte_budget 2 (- 1) - 2)) \<le> 0"
    by simp
  have j: "2 \<le> INT_MAX" by (simp add: INT_MAX_def)
  have wl: "wins_nwstr_len ?ws 0 = Inr 2" by (simp add: INT_MAX_def)
  have ia: "inserted_at ?a (map ucast (take 2 ?s))
      = \<lparr>cury = 0, curx = 1, rows = [[32, 65, 66, 32, 32]]\<rparr>"
    by (simp add: inserted_at_def blank_window_def)
  have ib: "inserted_at ?b [65, 66] = \<lparr>cury = 0, curx = 1, rows = [[32, 65, 66, 32, 32]]\<rparr>"
    by (simp add: inserted_at_def blank_window_def)
  have ic: "inserted_at ?b (take (nat 2) ?ws)
      = \<lparr>cury = 0, curx = 1, rows = [[32, 65, 66, 32, 32]]\<rparr>"
    by (simp add: inserted_at_def blank_window_def)
  have ca: "map (\<lambda>c. (ucast c :: 16 word, OK)) (rev (take 2 ?s)) = [(66, OK), (65, OK)]"
    by simp
  have cb: "map (\<lambda>u. (u, OK)) (rev [65, 66 :: 32 word]) = [(66, OK), (65, OK)]"
    by simp
  have cc: "map (\<lambda>u. (u, OK)) (rev (take (nat 2) ?ws)) = [(66, OK), (65, OK)]"
    by simp
  note t = string_reads_forward_after_insertion [where s = ?s and l = 2 and n = "- 1"
      and w = ?a and mb = decode_one and ds = "[65, 66]" and j = 2 and c = 0
      and ww = ?b and ws = ?ws and len = 2]
  have "winsnstr insert_cell (Some ?a) (Some ?s) (- 1)
          = Inr (OK, Some (inserted_at ?a (map ucast (take 2 ?s))))
      \<and> winsnstr (logged insert_cell) (Some (?a, [])) (Some ?s) (- 1)
          = Inr (OK, Some (inserted_at ?a (map ucast (take 2 ?s)),
                           map (\<lambda>c. (ucast c, OK)) (rev (take 2 ?s))))"
    by (rule t [THEN conjunct1, THEN mp]) (intro conjI len l n va)
  then have r1: "winsnstr insert_cell (Some ?a) (Some ?s) (- 1)
          = Inr (OK, Some \<lparr>cury = 0, curx = 1, rows = [[32, 65, 66, 32, 32]]\<rparr>)
      \<and> winsnstr (logged insert_cell) (Some (?a, [])) (Some ?s) (- 1)
          = Inr (OK, Some (\<lparr>cury = 0, curx = 1, rows = [[32, 65, 66, 32, 32]]\<rparr>,
                           [(66, OK), (65, OK)]))"
    by (simp only: ia ca)
  have "winsnstr_wide decode_one insert_cell (Some ?b) (Some ?s) (- 1)
          = Inr (OK, Some (inserted_at ?b [65, 66]))
      \<and> winsnstr_wide decode_one (logged insert_cell) (Some (?b, [])) (Some ?s) (- 1)
          = Inr (OK, Some (inserted_at ?b [65, 66], map (\<lambda>u. (u, OK)) (rev [65, 66])))"
    by (rule t [THEN conjunct2, THEN conjunct1, THEN mp]) (intro conjI len dec ix st j vb)
  then have r2: "winsnstr_wide decode_one insert_cell (Some ?b) (Some ?s) (- 1)
          = Inr (OK, Some \<lparr>cury = 0, curx = 1, rows = [[32, 65, 66, 32, 32]]\<rparr>)
      \<and> winsnstr_wide decode_one (logged insert_cell) (Some (?b, [])) (Some ?s) (- 1)
          = Inr (OK, Some (\<lparr>cury = 0, curx = 1, rows = [[32, 65, 66, 32, 32]]\<rparr>,
                           [(66, OK), (65, OK)]))"
    by (simp only: ib cb)
  have "wins_nwstr insert_cell (Some ?b) (Some ?ws) (- 1)
          = Inr (OK, Some (inserted_at ?b (take (nat 2) ?ws)))
      \<and> wins_nwstr (logged insert_cell) (Some (?b, [])) (Some ?ws) (- 1)
          = Inr (OK, Some (inserted_at ?b (take (nat 2) ?ws),
                           map (\<lambda>u. (u, OK)) (rev (take (nat 2) ?ws))))"
    by (rule t [THEN conjunct2, THEN conjunct2, THEN mp]) (intro conjI wl n vb)
  then have r3: "wins_nwstr insert_cell (Some ?b) (Some ?ws) (- 1)
          = Inr (OK, Some \<lparr>cury = 0, curx = 1, rows = [[32, 65, 66, 32, 32]]\<rparr>)
      \<and> wins_nwstr (logged insert_cell) (Some (?b, [])) (Some ?ws) (- 1)
          = Inr (OK, Some (\<lparr>cury = 0, curx = 1, rows = [[32, 65, 66, 32, 32]]\<rparr>,
                           [(66, OK), (65, OK)]))"
    by (simp only: ic cc)
  from len dec r1 r2 r3 show ?thesis by blast
qed

text \<open>
  Claim C8: every other entry point forwards its arguments. The ones without a limit pass
  -1, the ones without a window pass \<^verbatim>\<open>stdscr\<close>, and the ones with a position move the
  cursor first, return \<^verbatim>\<open>ERR\<close> without any insertion when the move fails, and delegate
  otherwise. The narrow entry points are stated for both builds of \<^verbatim>\<open>winsnstr\<close>.
\<close>

theorem entry_points_forward:
  "insstr (winsnstr winsch) stdscr str = winsnstr winsch stdscr str (- 1)
   \<and> winsstr (winsnstr winsch) win str = winsnstr winsch win str (- 1)
   \<and> insnstr (winsnstr winsch) stdscr str n = winsnstr winsch stdscr str n
   \<and> mvinsstr move (winsnstr winsch) stdscr y x str =
       (if fst (move stdscr y x) = ERR then Inr (ERR, snd (move stdscr y x))
        else winsnstr winsch (snd (move stdscr y x)) str (- 1))
   \<and> mvwinsstr wmove (winsnstr winsch) win y x str =
       (if fst (wmove win y x) = ERR then Inr (ERR, snd (wmove win y x))
        else winsnstr winsch (snd (wmove win y x)) str (- 1))
   \<and> mvinsnstr move (winsnstr winsch) stdscr y x str n =
       (if fst (move stdscr y x) = ERR then Inr (ERR, snd (move stdscr y x))
        else winsnstr winsch (snd (move stdscr y x)) str n)
   \<and> mvwinsnstr wmove (winsnstr winsch) win y x str n =
       (if fst (wmove win y x) = ERR then Inr (ERR, snd (wmove win y x))
        else winsnstr winsch (snd (wmove win y x)) str n)
   \<and> insstr (winsnstr_wide mb winschw) stdscrw str = winsnstr_wide mb winschw stdscrw str (- 1)
   \<and> winsstr (winsnstr_wide mb winschw) winw str = winsnstr_wide mb winschw winw str (- 1)
   \<and> insnstr (winsnstr_wide mb winschw) stdscrw str n = winsnstr_wide mb winschw stdscrw str n
   \<and> mvinsstr movew (winsnstr_wide mb winschw) stdscrw y x str =
       (if fst (movew stdscrw y x) = ERR then Inr (ERR, snd (movew stdscrw y x))
        else winsnstr_wide mb winschw (snd (movew stdscrw y x)) str (- 1))
   \<and> mvwinsstr wmovew (winsnstr_wide mb winschw) winw y x str =
       (if fst (wmovew winw y x) = ERR then Inr (ERR, snd (wmovew winw y x))
        else winsnstr_wide mb winschw (snd (wmovew winw y x)) str (- 1))
   \<and> mvinsnstr movew (winsnstr_wide mb winschw) stdscrw y x str n =
       (if fst (movew stdscrw y x) = ERR then Inr (ERR, snd (movew stdscrw y x))
        else winsnstr_wide mb winschw (snd (movew stdscrw y x)) str n)
   \<and> mvwinsnstr wmovew (winsnstr_wide mb winschw) winw y x str n =
       (if fst (wmovew winw y x) = ERR then Inr (ERR, snd (wmovew winw y x))
        else winsnstr_wide mb winschw (snd (wmovew winw y x)) str n)
   \<and> ins_wstr winschw stdscrw wstr = wins_nwstr winschw stdscrw wstr (- 1)
   \<and> wins_wstr winschw winw wstr = wins_nwstr winschw winw wstr (- 1)
   \<and> ins_nwstr winschw stdscrw wstr n = wins_nwstr winschw stdscrw wstr n
   \<and> mvins_wstr movew winschw stdscrw y x wstr =
       (if fst (movew stdscrw y x) = ERR then Inr (ERR, snd (movew stdscrw y x))
        else wins_nwstr winschw (snd (movew stdscrw y x)) wstr (- 1))
   \<and> mvwins_wstr wmovew winschw winw y x wstr =
       (if fst (wmovew winw y x) = ERR then Inr (ERR, snd (wmovew winw y x))
        else wins_nwstr winschw (snd (wmovew winw y x)) wstr (- 1))
   \<and> mvins_nwstr movew winschw stdscrw y x wstr n =
       (if fst (movew stdscrw y x) = ERR then Inr (ERR, snd (movew stdscrw y x))
        else wins_nwstr winschw (snd (movew stdscrw y x)) wstr n)
   \<and> mvwins_nwstr wmovew winschw winw y x wstr n =
       (if fst (wmovew winw y x) = ERR then Inr (ERR, snd (wmovew winw y x))
        else wins_nwstr winschw (snd (wmovew winw y x)) wstr n)"
  by (simp add: insstr_def winsstr_def insnstr_def mvinsstr_def mvwinsstr_def mvinsnstr_def
      mvwinsnstr_def ins_wstr_def wins_wstr_def ins_nwstr_def mvins_wstr_def mvwins_wstr_def
      mvins_nwstr_def mvwins_nwstr_def split: prod.splits)

theorem entry_points_forward_witness:
  "fst (move_cursor (Some (blank_window :: 16 word window)) 3 0) = ERR
   \<and> mvwinsnstr move_cursor (winsnstr insert_cell)
        (Some (blank_window :: 16 word window)) 3 0 (Some [65, 66, 0]) 2
       = Inr (ERR, Some blank_window)
   \<and> fst (move_cursor (Some (blank_window :: 16 word window)) 0 3) \<noteq> ERR
   \<and> mvwinsnstr move_cursor (winsnstr insert_cell)
        (Some (blank_window :: 16 word window)) 0 3 (Some [65, 66, 0]) 2
       = Inr (OK, Some \<lparr>cury = 0, curx = 3, rows = [[32, 32, 32, 65, 66]]\<rparr>)
   \<and> mvwins_wstr move_cursor insert_cell
        (Some (blank_window :: 32 word window)) 0 3 (Some [65, 66, 0])
       = Inr (OK, Some \<lparr>cury = 0, curx = 3, rows = [[32, 32, 32, 65, 66]]\<rparr>)"
proof -
  let ?a = "\<lparr>cury = 0, curx = 3, rows = [[32, 32, 32, 32, 32 :: 16 word]]\<rparr>"
  let ?b = "\<lparr>cury = 0, curx = 3, rows = [[32, 32, 32, 32, 32 :: 32 word]]\<rparr>"
  have m1: "move_cursor (Some (blank_window :: 16 word window)) 3 0 = (ERR, Some blank_window)"
    by code_simp
  have m2: "move_cursor (Some (blank_window :: 16 word window)) 0 3 = (OK, Some ?a)"
    by code_simp
  have m3: "move_cursor (Some (blank_window :: 32 word window)) 0 3 = (OK, Some ?b)"
    by code_simp
  have e2: "winsnstr insert_cell (Some ?a) (Some [65, 66, 0]) 2
      = Inr (OK, Some \<lparr>cury = 0, curx = 3, rows = [[32, 32, 32, 65, 66]]\<rparr>)"
    by code_simp
  have e3: "wins_nwstr insert_cell (Some ?b) (Some [65, 66, 0]) (- 1)
      = Inr (OK, Some \<lparr>cury = 0, curx = 3, rows = [[32, 32, 32, 65, 66]]\<rparr>)"
    by code_simp
  note t1 = entry_points_forward [where wmove = move_cursor and winsch = insert_cell
      and win = "Some (blank_window :: 16 word window)" and y = 3 and x = 0
      and str = "Some [65, 66, 0]" and n = 2 and wmovew = move_cursor and winschw = insert_cell
      and winw = "Some (blank_window :: 32 word window)" and wstr = "Some [65, 66, 0]"
      and stdscr = None and move = move_cursor and mb = decode_one and stdscrw = None
      and movew = move_cursor]
  note t2 = entry_points_forward [where wmove = move_cursor and winsch = insert_cell
      and win = "Some (blank_window :: 16 word window)" and y = 0 and x = 3
      and str = "Some [65, 66, 0]" and n = 2 and wmovew = move_cursor and winschw = insert_cell
      and winw = "Some (blank_window :: 32 word window)" and wstr = "Some [65, 66, 0]"
      and stdscr = None and move = move_cursor and mb = decode_one and stdscrw = None
      and movew = move_cursor]
  from t1 m1 have r1: "mvwinsnstr move_cursor (winsnstr insert_cell)
        (Some (blank_window :: 16 word window)) 3 0 (Some [65, 66, 0]) 2
       = Inr (ERR, Some blank_window)"
    by simp
  from t2 m2 e2 have r2: "mvwinsnstr move_cursor (winsnstr insert_cell)
        (Some (blank_window :: 16 word window)) 0 3 (Some [65, 66, 0]) 2
       = Inr (OK, Some \<lparr>cury = 0, curx = 3, rows = [[32, 32, 32, 65, 66]]\<rparr>)"
    by (simp add: OK_def ERR_def)
  from t2 m3 e3 have r3: "mvwins_wstr move_cursor insert_cell
        (Some (blank_window :: 32 word window)) 0 3 (Some [65, 66, 0])
       = Inr (OK, Some \<lparr>cury = 0, curx = 3, rows = [[32, 32, 32, 65, 66]]\<rparr>)"
    by (simp add: OK_def ERR_def)
  from r1 r2 r3 m1 m2 show ?thesis by (simp add: OK_def ERR_def)
qed

text \<open>
  Claim C9: whether the call returns \<^verbatim>\<open>OK\<close> or \<^verbatim>\<open>ERR\<close>, the content of the row of the
  cursor is all it changes. The engines change the window through the primitive only, so
  this holds for every primitive that keeps to the row of the cursor, as the one of the
  specification does.
\<close>

theorem engine_changes_cursor_row_only:
  assumes "\<forall>w c. only_cursor_row w (snd (winsch w c))"
    and "\<forall>w c. only_cursor_row w (snd (winschw w c))"
  shows "(winsnstr winsch (Some w) str n = Inr (rc, win')
            \<longrightarrow> (\<exists>w'. win' = Some w' \<and> only_cursor_row w w'))
       \<and> (winsnstr_wide mb winschw (Some ww) str n = Inr (rc, winw')
            \<longrightarrow> (\<exists>w'. winw' = Some w' \<and> only_cursor_row ww w'))
       \<and> (wins_nwstr winschw (Some ww) wstr n = Inr (rc, winw')
            \<longrightarrow> (\<exists>w'. winw' = Some w' \<and> only_cursor_row ww w'))"
proof (intro conjI impI)
  assume a: "winsnstr winsch (Some w) str n = Inr (rc, win')"
  show "\<exists>w'. win' = Some w' \<and> only_cursor_row w w'"
  proof (cases str)
    case None
    with a show ?thesis by (auto simp: winsnstr_def only_cursor_row_refl)
  next
    case (Some s)
    with a winsnstr_Inr [of winsch w s n rc win']
    obtain us w' where "win' = Some w'" "(rc, w') = insert_all winsch w us" by auto
    with insert_all_only_cursor_row [OF assms(1), of w us] show ?thesis
      by (metis snd_conv)
  qed
next
  assume a: "winsnstr_wide mb winschw (Some ww) str n = Inr (rc, winw')"
  show "\<exists>w'. winw' = Some w' \<and> only_cursor_row ww w'"
  proof (cases str)
    case None
    with a show ?thesis by (auto simp: winsnstr_wide_def only_cursor_row_refl)
  next
    case (Some s)
    with a winsnstr_wide_Inr [of mb winschw ww s n rc winw']
    obtain us w' where "winw' = Some w'" "(rc, w') = insert_all winschw ww us" by auto
    with insert_all_only_cursor_row [OF assms(2), of ww us] show ?thesis
      by (metis snd_conv)
  qed
next
  assume a: "wins_nwstr winschw (Some ww) wstr n = Inr (rc, winw')"
  show "\<exists>w'. winw' = Some w' \<and> only_cursor_row ww w'"
  proof (cases wstr)
    case None
    with a show ?thesis by (auto simp: wins_nwstr_def only_cursor_row_refl)
  next
    case (Some s)
    with a wins_nwstr_Inr [of winschw ww s n rc winw']
    obtain us w' where "winw' = Some w'" "(rc, w') = insert_all winschw ww us" by auto
    with insert_all_only_cursor_row [OF assms(2), of ww us] show ?thesis
      by (metis snd_conv)
  qed
qed

theorem engine_changes_cursor_row_only_witness:
  "(\<forall>w c. only_cursor_row w (snd (insert_cell (w :: 16 word window) c)))
   \<and> (\<forall>w c. only_cursor_row w (snd (insert_cell (w :: 32 word window) c)))
   \<and> winsnstr insert_cell (Some (blank_window :: 16 word window)) (Some [65, 66, 0]) (- 1)
       = Inr (OK, Some \<lparr>cury = 0, curx = 1, rows = [[32, 65, 66, 32, 32]]\<rparr>)
   \<and> only_cursor_row (blank_window :: 16 word window)
        \<lparr>cury = 0, curx = 1, rows = [[32, 65, 66, 32, 32]]\<rparr>
   \<and> winsnstr_wide decode_one insert_cell (Some blank_window) (Some [65, 66, 0]) (- 1)
       = Inr (OK, Some \<lparr>cury = 0, curx = 1, rows = [[32, 65, 66, 32, 32]]\<rparr>)
   \<and> wins_nwstr insert_cell (Some (blank_window :: 32 word window)) (Some [65, 66, 0]) (- 1)
       = Inr (OK, Some \<lparr>cury = 0, curx = 1, rows = [[32, 65, 66, 32, 32]]\<rparr>)
   \<and> only_cursor_row (blank_window :: 32 word window)
        \<lparr>cury = 0, curx = 1, rows = [[32, 65, 66, 32, 32]]\<rparr>"
proof -
  let ?w1 = "\<lparr>cury = 0, curx = 1, rows = [[32, 65, 66, 32, 32 :: 16 word]]\<rparr>"
  let ?w2 = "\<lparr>cury = 0, curx = 1, rows = [[32, 65, 66, 32, 32 :: 32 word]]\<rparr>"
  have h1: "\<forall>w c. only_cursor_row w (snd (insert_cell (w :: 16 word window) c))"
    by (simp add: insert_cell_only_cursor_row)
  have h2: "\<forall>w c. only_cursor_row w (snd (insert_cell (w :: 32 word window) c))"
    by (simp add: insert_cell_only_cursor_row)
  have n: "winsnstr insert_cell (Some (blank_window :: 16 word window)) (Some [65, 66, 0]) (- 1)
      = Inr (OK, Some ?w1)"
    by code_simp
  have v: "winsnstr_wide decode_one insert_cell (Some blank_window) (Some [65, 66, 0]) (- 1)
      = Inr (OK, Some ?w2)"
    by code_simp
  have u: "wins_nwstr insert_cell (Some (blank_window :: 32 word window)) (Some [65, 66, 0]) (- 1)
      = Inr (OK, Some ?w2)"
    by code_simp
  note t = engine_changes_cursor_row_only [OF h1 h2, where w = blank_window
      and str = "Some [65, 66, 0]" and n = "- 1" and rc = OK and win' = "Some ?w1"
      and mb = decode_one and ww = blank_window and winw' = "Some ?w2"
      and wstr = "Some [65, 66, 0]"]
  from t n have "only_cursor_row (blank_window :: 16 word window) ?w1" by simp
  moreover from t u have "only_cursor_row (blank_window :: 32 word window) ?w2" by simp
  ultimately show ?thesis using h1 h2 n v u by simp
qed

text \<open>
  Claim C10: the decode loop of the wide \<^verbatim>\<open>winsnstr\<close> never writes outside its buffer of
  513 cells and the insertion loop reads written cells only. The loop keeps the pointer
  at most one cell further for every byte of budget used, so with room for the budget
  left it does not overflow, and it ends with at most \<open>m - i\<close> cells more. That the loop
  ends is the termination proof of \<open>winsnstr_decode\<close>, by the measure \<open>n - i\<close>.
\<close>

theorem decode_buffer_writes_in_bounds:
  "winsnstr_wide mb winsch win str n \<noteq> Inl BufferOverflow
   \<and> winsnstr_wide mb winsch win str n \<noteq> Inl Uninitialised
   \<and> (p \<le> length wstr \<and> int p + (m - i) \<le> int (length wstr) \<longrightarrow>
        winsnstr_decode mb s m wstr p i \<noteq> Inl BufferOverflow
        \<and> (\<forall>wstr' p'. winsnstr_decode mb s m wstr p i = Inr (wstr', p') \<longrightarrow>
              p \<le> p' \<and> int p' - int p \<le> max 0 (m - i) \<and> p' \<le> length wstr
              \<and> length wstr' = length wstr))"
  using winsnstr_wide_no_buffer_fault [of mb winsch win str n]
    winsnstr_decode_no_overflow [of p m i wstr mb s]
    winsnstr_decode_Inr [of mb s m wstr p i]
  by blast

theorem decode_buffer_writes_in_bounds_witness:
  "0 \<le> length (replicate 513 (None :: 32 word option))
   \<and> int 0 + (3 - 0) \<le> int (length (replicate 513 (None :: 32 word option)))
   \<and> winsnstr_decode decode_one [65, 66, 67, 0] 3 (replicate 513 None) 0 0
       = Inr ((replicate 513 None)[0 := Some 65, 1 := Some 66, 2 := Some 67], 3)
   \<and> winsnstr_decode decode_one [65, 66, 67, 0] 3 (replicate 513 None) 0 0 \<noteq> Inl BufferOverflow
   \<and> (0 :: nat) \<le> 3 \<and> int 3 - int 0 \<le> max 0 (3 - 0)
   \<and> 3 \<le> length (replicate 513 (None :: 32 word option))
   \<and> winsnstr_wide decode_one insert_cell (Some blank_window) (Some [65, 66, 67, 0]) (- 1)
       \<noteq> Inl BufferOverflow"
proof -
  have r: "winsnstr_decode decode_one [65, 66, 67, 0] 3 (replicate 513 None) 0 0
       = Inr ((replicate 513 None)[0 := Some 65, 1 := Some 66, 2 := Some 67], 3)"
    by (simp add: winsnstr_decode.simps index_def decode_one_def INT_MAX_def)
       (simp only: numeral_2_eq_2)
  note t = decode_buffer_writes_in_bounds [where mb = decode_one and winsch = insert_cell
      and win = "Some blank_window" and str = "Some [65, 66, 67, 0]" and n = "- 1"
      and p = 0 and wstr = "replicate 513 None" and m = 3 and i = 0 and s = "[65, 66, 67, 0]"]
  from t r show ?thesis by simp
qed

end
